theory Spec2Isabelle
  imports Main "HOL-Library.AList"
begin

section \<open>Data model\<close>

text \<open>
  The exceptions that the code of \<^verbatim>\<open>kgx/sparql_transformer.py\<close> can raise by
  itself: a lookup of an unbound variable in a result binding (\<^verbatim>\<open>r['subject']\<close>), the
  first row of an empty count result (\<^verbatim>\<open>bindings[0]\<close>), \<^verbatim>\<open>int()\<close> of a string that is no
  integer, and \<^verbatim>\<open>' '.join\<close> of a sequence that holds a non-string.
\<close>

datatype error = KeyError string | IndexError | ValueError | TypeError

fun ebind :: "error + 'a \<Rightarrow> ('a \<Rightarrow> error + 'b) \<Rightarrow> error + 'b" where
  "ebind (Inl e) f = Inl e"
| "ebind (Inr x) f = f x"

text \<open>A \<^verbatim>\<open>for\<close> loop without \<^verbatim>\<open>break\<close> whose body may raise.\<close>

fun efold :: "('a \<Rightarrow> 's \<Rightarrow> error + 's) \<Rightarrow> 'a list \<Rightarrow> 's \<Rightarrow> error + 's" where
  "efold f [] s = Inr s"
| "efold f (x # xs) s = ebind (f x s) (efold f xs)"

text \<open>
  One value of a SPARQL JSON result, \<^verbatim>\<open>{'type': ..., 'value': ...}\<close>, and one result
  row: a dict from variable names to such values. A variable the row does not bind is
  absent from the dict.
\<close>

record rdf_term =
  ttype :: string
  tvalue :: string

type_synonym binding = "string \<rightharpoonup> rdf_term"

definition lookup :: "binding \<Rightarrow> string \<Rightarrow> error + rdf_term" where
  "lookup r k = (case r k of None \<Rightarrow> Inl (KeyError k) | Some t \<Rightarrow> Inr t)"

text \<open>
  The queries the transformers send, each a template with the parameters it is rendered
  with: \<^verbatim>\<open>SparqlTransformer.edge_query\<close> with \<^verbatim>\<open>predicate\<close>;
  \<^verbatim>\<open>RedSparqlTransformer.count_query\<close> with \<^verbatim>\<open>association\<close>;
  \<^verbatim>\<open>RedSparqlTransformer.edge_query\<close> with \<^verbatim>\<open>association\<close>, \<^verbatim>\<open>offset\<close> and \<^verbatim>\<open>limit\<close>;
  \<^verbatim>\<open>get_node_properties_query\<close> with the sequence whose \<^verbatim>\<open>' '.join\<close> is its
  \<^verbatim>\<open>curie_list\<close>, the body of the VALUES clause.
\<close>

datatype request =
    Generic_edge_query string
  | Count_query string
  | Edge_query string int int
  | Node_properties_query "string option list"

text \<open>
  The endpoint is outside the program: it answers a query with the list
  \<^verbatim>\<open>results['results']['bindings']\<close>.
\<close>

type_synonym endpoint = "request \<Rightarrow> binding list"

text \<open>
  What the transformer does to its collaborators, in order: the queries it sends and the
  calls of the graph-building methods \<^verbatim>\<open>add_edge(subject, object, predicate)\<close> and
  \<^verbatim>\<open>add_node_attribute(node, key=..., value=...)\<close>.
\<close>

datatype call =
    Query request
  | Add_edge string string string
  | Add_node_attribute string string string

text \<open>
  A Python dict with string keys is an association list in insertion order:
  \<^const>\<open>AList.update\<close> overwrites the value of a present key in place and appends an
  absent key. The graph is the node table of \<^verbatim>\<open>self.graph\<close> (node to attribute dict)
  and its keyed edges (subject, object, key).
\<close>

type_synonym attrs = "(string \<times> string) list"

record graph =
  g_nodes :: "(string \<times> attrs) list"
  g_edges :: "(string \<times> string \<times> string) list"

record transformer =
  graph :: graph
  calls :: "call list"

section \<open>The graph mutator\<close>

text \<open>
  Modelled from the spec: \<^verbatim>\<open>add_edge\<close> and \<^verbatim>\<open>add_node_attribute\<close> are methods of
  \<^verbatim>\<open>kgx.rdf_graph_mixin.RdfGraphMixin\<close>, which is not among the source files. The spec
  (sections 3 and 6) gives a node a mapping from attribute key to value where a repeated
  key is overwritten and nothing is removed, and an edge as a (subject, object,
  predicate) triple of a multigraph. Either method makes the nodes it names.
\<close>

definition G_add_node :: "string \<Rightarrow> graph \<Rightarrow> graph" where
  "G_add_node n g =
     (if n \<in> fst ` set (g_nodes g) then g else g\<lparr>g_nodes := g_nodes g @ [(n, [])]\<rparr>)"

definition G_add_node_attribute :: "string \<Rightarrow> string \<Rightarrow> string \<Rightarrow> graph \<Rightarrow> graph" where
  "G_add_node_attribute n k v g =
     (let g1 = G_add_node n g
      in g1\<lparr>g_nodes := AList.map_entry n (AList.update k v) (g_nodes g1)\<rparr>)"

definition G_add_edge :: "string \<Rightarrow> string \<Rightarrow> string \<Rightarrow> graph \<Rightarrow> graph" where
  "G_add_edge s ob p g =
     (let g1 = G_add_node ob (G_add_node s g)
      in if (s, ob, p) \<in> set (g_edges g1) then g1
         else g1\<lparr>g_edges := g_edges g1 @ [(s, ob, p)]\<rparr>)"

definition add_node_attribute :: "string \<Rightarrow> string \<Rightarrow> string \<Rightarrow> transformer \<Rightarrow> transformer" where
  "add_node_attribute n k v st =
     st\<lparr>graph := G_add_node_attribute n k v (graph st),
        calls := calls st @ [Add_node_attribute n k v]\<rparr>"

definition add_edge :: "string \<Rightarrow> string \<Rightarrow> string \<Rightarrow> transformer \<Rightarrow> transformer" where
  "add_edge s ob p st =
     st\<lparr>graph := G_add_edge s ob p (graph st),
        calls := calls st @ [Add_edge s ob p]\<rparr>"

section \<open>Python built-ins the code uses\<close>

text \<open>\<^verbatim>\<open>'<{}>'.format(x)\<close>\<close>

definition angle :: "string \<Rightarrow> string" where
  "angle x = ''<'' @ x @ ''>''"

text \<open>
  \<^verbatim>\<open>int(s)\<close> on an optional sign and decimal digits, the lexical form of the
  \<^verbatim>\<open>xsd:integer\<close> that COUNT returns. (Python also accepts blanks around the number and
  underscores between digits; on those the model says \<^const>\<open>ValueError\<close>.)
\<close>

definition digit_val :: "char \<Rightarrow> nat option" where
  "digit_val c =
     (let n = (of_char c :: nat) in if 48 \<le> n \<and> n \<le> 57 then Some (n - 48) else None)"

fun parse_digits :: "string \<Rightarrow> nat \<Rightarrow> nat option" where
  "parse_digits [] acc = Some acc"
| "parse_digits (c # cs) acc =
     (case digit_val c of None \<Rightarrow> None | Some d \<Rightarrow> parse_digits cs (10 * acc + d))"

definition parse_nat :: "string \<Rightarrow> error + int" where
  "parse_nat s =
     (if s = [] then Inl ValueError
      else case parse_digits s 0 of None \<Rightarrow> Inl ValueError | Some n \<Rightarrow> Inr (int n))"

definition py_int :: "string \<Rightarrow> error + int" where
  "py_int s =
     (case s of
        [] \<Rightarrow> Inl ValueError
      | c # cs \<Rightarrow>
          if c = CHR ''-'' then ebind (parse_nat cs) (\<lambda>n. Inr (- n))
          else if c = CHR ''+'' then parse_nat cs
          else parse_nat s)"

text \<open>\<^verbatim>\<open>range(a, b, s)\<close> for a positive step.\<close>

function py_range :: "int \<Rightarrow> int \<Rightarrow> int \<Rightarrow> int list" where
  "py_range a b s = (if 0 < s \<and> a < b then a # py_range (a + s) b s else [])"
  by pat_completeness auto
termination
  by (relation "measure (\<lambda>(a, b, s). nat (b - a))") auto

text \<open>\<^verbatim>\<open>s.startswith(pre)\<close>, \<^verbatim>\<open>s.split(c)\<close> for a one-character separator.\<close>

definition startswith :: "string \<Rightarrow> string \<Rightarrow> bool" where
  "startswith s pre = (take (length pre) s = pre)"

fun split_char :: "char \<Rightarrow> string \<Rightarrow> string list" where
  "split_char c [] = [[]]"
| "split_char c (x # xs) =
     (if x = c then [] # split_char c xs
      else case split_char c xs of
             [] \<Rightarrow> [[x]]
           | w # ws \<Rightarrow> (x # w) # ws)"

text \<open>
  \<^verbatim>\<open>s.replace(old, new)\<close>: the occurrences of \<^verbatim>\<open>old\<close> are replaced from the left and do
  not overlap; an empty \<^verbatim>\<open>old\<close> matches before every character and at the end.
\<close>

function replace_from :: "string \<Rightarrow> string \<Rightarrow> string \<Rightarrow> string" where
  "replace_from old new s =
     (if old = [] then s
      else case s of
             [] \<Rightarrow> []
           | c # cs \<Rightarrow>
               if take (length old) s = old
               then new @ replace_from old new (drop (length old) s)
               else c # replace_from old new cs)"
  by pat_completeness auto
termination
  by (relation "measure (\<lambda>(old, new, s). length s)") auto

definition str_replace :: "string \<Rightarrow> string \<Rightarrow> string \<Rightarrow> string" where
  "str_replace old new s =
     (if old = [] then new @ concat (map (\<lambda>c. c # new) s) else replace_from old new s)"

text \<open>
  \<^verbatim>\<open>set.add\<close>: a set of strings is the list of its members, each once. (Python fixes no
  iteration order for a set; the model iterates in insertion order.)
\<close>

definition set_add :: "string \<Rightarrow> string list \<Rightarrow> string list" where
  "set_add x xs = (if x \<in> set xs then xs else xs @ [x])"

text \<open>
  \<^verbatim>\<open>filter(None, nodes)\<close> keeps the truthy members: it drops \<^verbatim>\<open>None\<close> and the empty
  string.
\<close>

definition truthy :: "string option \<Rightarrow> bool" where
  "truthy x = (case x of None \<Rightarrow> False | Some s \<Rightarrow> s \<noteq> [])"

section \<open>SparqlTransformer\<close>

definition query :: "endpoint \<Rightarrow> request \<Rightarrow> transformer \<Rightarrow> binding list \<times> transformer" where
  "query ep q st = (ep q, st\<lparr>calls := calls st @ [Query q]\<rparr>)"

text \<open>
  The body of the inner loop of \<^verbatim>\<open>SparqlTransformer.load_networkx_graph\<close>: the three
  values are read first, then the type of the object decides.
\<close>

definition load_triple :: "binding \<Rightarrow> transformer \<Rightarrow> error + transformer" where
  "load_triple r st =
     ebind (lookup r ''subject'') (\<lambda>s.
     ebind (lookup r ''predicate'') (\<lambda>p.
     ebind (lookup r ''object'') (\<lambda>ob.
       if ttype ob = ''literal''
       then Inr (add_node_attribute (tvalue s) (tvalue p) (tvalue ob) st)
       else Inr (add_edge (tvalue s) (tvalue ob) (tvalue p) st))))"

definition load_predicate :: "endpoint \<Rightarrow> string \<Rightarrow> transformer \<Rightarrow> error + transformer" where
  "load_predicate ep predicate st =
     (let predicate' = angle predicate;
          (results, st1) = query ep (Generic_edge_query predicate') st
      in efold load_triple results st1)"

definition load_networkx_graph :: "endpoint \<Rightarrow> string list \<Rightarrow> transformer \<Rightarrow> error + transformer" where
  "load_networkx_graph ep predicates st = efold (load_predicate ep) predicates st"

section \<open>RedSparqlTransformer\<close>

subsection \<open>\<^verbatim>\<open>_grouper\<close> and \<^verbatim>\<open>load_nodes\<close>\<close>

text \<open>
  \<^verbatim>\<open>zip_longest(*[iter(iterable)] * n, fillvalue=fillvalue)\<close>: the \<^verbatim>\<open>n\<close> arguments are one
  iterator, so every tuple takes the next \<^verbatim>\<open>n\<close> members; the last tuple is filled up to
  \<^verbatim>\<open>n\<close> with \<^verbatim>\<open>fillvalue\<close>; nothing is yielded once the iterator is exhausted at the
  start of a tuple, nor when \<^verbatim>\<open>n\<close> is 0.
\<close>

function grouper :: "'a list \<Rightarrow> nat \<Rightarrow> 'a \<Rightarrow> 'a list list" where
  "grouper iterable n fillvalue =
     (if n = 0 \<or> iterable = [] then []
      else (take n iterable @ replicate (n - length iterable) fillvalue)
             # grouper (drop n iterable) n fillvalue)"
  by pat_completeness auto
termination
  by (relation "measure (\<lambda>(iterable, n, fillvalue). length iterable)") auto

text \<open>
  One binding of a node-attribute result, recorded in the dict \<^verbatim>\<open>d\<close> of
  \<^verbatim>\<open>load_nodes\<close>: subject to (predicate to object).
\<close>

type_synonym node_dict = "(string \<times> attrs) list"

definition record_binding :: "binding \<Rightarrow> node_dict \<Rightarrow> error + node_dict" where
  "record_binding r d =
     ebind (lookup r ''object'') (\<lambda>ob.
       if ttype ob \<noteq> ''bnode'' then
         ebind (lookup r ''subject'') (\<lambda>s.
         ebind (lookup r ''predicate'') (\<lambda>p.
         ebind (if startswith (tvalue p) ''bl:''
                then (case split_char CHR '':'' (tvalue p) of
                        _ # local # _ \<Rightarrow> Inr local
                      | _ \<Rightarrow> Inl IndexError)
                else Inr (tvalue p)) (\<lambda>predicate.
           let subject = tvalue s;
               d1 = (if subject \<notin> fst ` set d then d @ [(subject, [])] else d)
           in Inr (AList.map_entry subject (AList.update predicate (tvalue ob)) d1))))
       else Inr d)"

text \<open>The two nested loops over \<^verbatim>\<open>d.items()\<close> and \<^verbatim>\<open>attr_dict.items()\<close>.\<close>

definition flush :: "node_dict \<Rightarrow> transformer \<Rightarrow> transformer" where
  "flush d st =
     fold (\<lambda>(node, attr_dict) st1.
             fold (\<lambda>(key, val) st2. add_node_attribute node key val st2) attr_dict st1)
       d st"

text \<open>
  One round of the \<^verbatim>\<open>while\<close> loop of \<^verbatim>\<open>load_nodes\<close>, for one tuple of the generator.
  \<^verbatim>\<open>' '.join\<close> raises when a member is not a string.
\<close>

definition load_chunk :: "endpoint \<Rightarrow> string option list \<Rightarrow> transformer \<Rightarrow> error + transformer" where
  "load_chunk ep nodes st =
     (let nodes' = filter truthy nodes
      in if None \<in> set nodes' then Inl TypeError
         else
           let (node_results, st1) = query ep (Node_properties_query nodes') st
           in ebind (efold record_binding node_results []) (\<lambda>d. Inr (flush d st1)))"

definition load_nodes :: "endpoint \<Rightarrow> string list \<Rightarrow> transformer \<Rightarrow> error + transformer" where
  "load_nodes ep node_set st =
     efold (load_chunk ep) (grouper (map Some node_set) 10000 None) st"

subsection \<open>\<^verbatim>\<open>categorize\<close>\<close>

text \<open>
  \<^verbatim>\<open>un_camel_case\<close> is imported from \<^verbatim>\<open>kgx.utils.kgx_utils\<close>, which is not among the
  source files: it is the parameter \<open>un_camel_case\<close>.
\<close>

definition categorize_data :: "(string \<Rightarrow> string) \<Rightarrow> attrs \<Rightarrow> attrs" where
  "categorize_data un_camel_case data =
     (case map_of data ''type'' of
        None \<Rightarrow> data
      | Some ty \<Rightarrow>
          if map_of data ''category'' = None
          then AList.update ''category'' (un_camel_case (str_replace ''biolink:'' [] ty)) data
          else data)"

definition categorize :: "(string \<Rightarrow> string) \<Rightarrow> transformer \<Rightarrow> transformer" where
  "categorize un_camel_case st =
     st\<lparr>graph := (graph st)\<lparr>g_nodes :=
        map (\<lambda>(n, data). (n, categorize_data un_camel_case data)) (g_nodes (graph st))\<rparr>\<rparr>"

subsection \<open>\<^verbatim>\<open>load_networkx_graph\<close>\<close>

text \<open>The first loop over a page: its subjects and objects, as a set.\<close>

definition collect_node :: "binding \<Rightarrow> string list \<Rightarrow> error + string list" where
  "collect_node r node_list =
     ebind (lookup r ''subject'') (\<lambda>s.
       let node_list1 = set_add (angle (tvalue s)) node_list
       in ebind (lookup r ''object'') (\<lambda>ob.
            Inr (set_add (angle (tvalue ob)) node_list1)))"

text \<open>The second loop over a page: one \<^verbatim>\<open>add_edge\<close> for each row.\<close>

definition load_edge :: "binding \<Rightarrow> transformer \<Rightarrow> error + transformer" where
  "load_edge r st =
     ebind (lookup r ''subject'') (\<lambda>s.
     ebind (lookup r ''predicate'') (\<lambda>p.
     ebind (lookup r ''object'') (\<lambda>ob.
       Inr (add_edge (tvalue s) (tvalue ob) (tvalue p) st))))"

text \<open>
  The body of the loop \<^verbatim>\<open>for i in range(step, count + step, step)\<close> up to the test of
  the limit: the window at \<^verbatim>\<open>start\<close> is fetched, its nodes are loaded, its edges added.
\<close>

definition load_page :: "endpoint \<Rightarrow> string \<Rightarrow> int \<Rightarrow> int \<Rightarrow> transformer \<Rightarrow> error + transformer" where
  "load_page ep association step start st =
     (let (results, st1) = query ep (Edge_query association start step) st
      in ebind (efold collect_node results []) (\<lambda>node_list.
         ebind (load_nodes ep node_list st1) (\<lambda>st2.
           efold load_edge results st2)))"

text \<open>
  The loop itself, over the values of \<^verbatim>\<open>i\<close> still to come. \<open>limit\<close> is
  \<^verbatim>\<open>kwargs['limit']\<close> when the caller gave one. After the page, \<^verbatim>\<open>start\<close> is \<^verbatim>\<open>i\<close>.
\<close>

fun page_loop ::
  "endpoint \<Rightarrow> int option \<Rightarrow> string \<Rightarrow> int \<Rightarrow> int list \<Rightarrow> int \<Rightarrow> transformer \<Rightarrow> error + transformer"
where
  "page_loop ep limit association step [] start st = Inr st"
| "page_loop ep limit association step (i # rest) start st =
     ebind (load_page ep association step start st) (\<lambda>st1.
       if (case limit of None \<Rightarrow> False | Some l \<Rightarrow> i > l) then Inr st1
       else page_loop ep limit association step rest i st1)"

text \<open>
  \<^verbatim>\<open>int(results['results']['bindings'][0]['triples']['value'])\<close> of the count query's
  answer.
\<close>

definition triples_count :: "binding list \<Rightarrow> error + int" where
  "triples_count bindings =
     (case bindings of
        [] \<Rightarrow> Inl IndexError
      | r # _ \<Rightarrow> ebind (lookup r ''triples'') (\<lambda>t. py_int (tvalue t)))"

text \<open>The body of the outer loop \<^verbatim>\<open>for predicate in predicates\<close>.\<close>

definition red_load_predicate ::
  "endpoint \<Rightarrow> int option \<Rightarrow> string \<Rightarrow> transformer \<Rightarrow> error + transformer"
where
  "red_load_predicate ep limit predicate st =
     (let association = angle predicate;
          (results, st1) = query ep (Count_query association) st
      in ebind (triples_count results) (\<lambda>count.
           let step = 1000; start = 0
           in page_loop ep limit association step (py_range step (count + step) step) start st1))"

definition red_load_networkx_graph ::
  "(string \<Rightarrow> string) \<Rightarrow> endpoint \<Rightarrow> int option \<Rightarrow> string list \<Rightarrow> transformer
     \<Rightarrow> error + transformer"
where
  "red_load_networkx_graph un_camel_case ep limit predicates st =
     ebind (efold (red_load_predicate ep limit) predicates st) (\<lambda>st1.
       Inr (categorize un_camel_case st1))"

section \<open>Observations of a run\<close>

text \<open>
  The windows (association, offset, limit) of the edge queries in a list of calls, the
  VALUES sequences of its node-attribute queries, and the arguments of its \<^verbatim>\<open>add_edge\<close>
  and \<^verbatim>\<open>add_node_attribute\<close> calls, each in order.
\<close>

fun window_of :: "call \<Rightarrow> (string \<times> int \<times> int) list" where
  "window_of (Query (Edge_query a off lim)) = [(a, off, lim)]"
| "window_of _ = []"

definition edge_windows :: "call list \<Rightarrow> (string \<times> int \<times> int) list" where
  "edge_windows cs = concat (map window_of cs)"

fun values_of :: "call \<Rightarrow> string option list list" where
  "values_of (Query (Node_properties_query vs)) = [vs]"
| "values_of _ = []"

definition node_queries :: "call list \<Rightarrow> string option list list" where
  "node_queries cs = concat (map values_of cs)"

fun edge_of :: "call \<Rightarrow> (string \<times> string \<times> string) list" where
  "edge_of (Add_edge s ob p) = [(s, ob, p)]"
| "edge_of _ = []"

definition edge_calls :: "call list \<Rightarrow> (string \<times> string \<times> string) list" where
  "edge_calls cs = concat (map edge_of cs)"

fun mutation_of :: "call \<Rightarrow> call list" where
  "mutation_of (Query q) = []"
| "mutation_of c = [c]"

definition mutations :: "call list \<Rightarrow> call list" where
  "mutations cs = concat (map mutation_of cs)"

text \<open>The call log of a run that returned; an aborted run leaves none to observe.\<close>

fun calls_of :: "error + transformer \<Rightarrow> call list" where
  "calls_of (Inl e) = []"
| "calls_of (Inr st) = calls st"

fun graph_of :: "error + transformer \<Rightarrow> graph option" where
  "graph_of (Inl e) = None"
| "graph_of (Inr st) = Some (graph st)"

text \<open>
  A row that binds \<^verbatim>\<open>subject\<close>, \<^verbatim>\<open>predicate\<close> and \<^verbatim>\<open>object\<close>, and an endpoint whose
  answers to edge and node-attribute queries hold such rows only.
\<close>

definition spo_bound :: "binding \<Rightarrow> bool" where
  "spo_bound r = (r ''subject'' \<noteq> None \<and> r ''predicate'' \<noteq> None \<and> r ''object'' \<noteq> None)"

fun row_query :: "request \<Rightarrow> bool" where
  "row_query (Count_query a) = False"
| "row_query _ = True"

definition rows_bound :: "endpoint \<Rightarrow> bool" where
  "rows_bound ep = (\<forall>q. row_query q \<longrightarrow> list_all spo_bound (ep q))"

text \<open>The (subject, object, predicate) of a row, as \<^verbatim>\<open>add_edge\<close> receives them.\<close>

definition the_value :: "binding \<Rightarrow> string \<Rightarrow> string" where
  "the_value r k = (case r k of None \<Rightarrow> [] | Some t \<Rightarrow> tvalue t)"

definition edge_args :: "binding \<Rightarrow> string \<times> string \<times> string" where
  "edge_args r = (the_value r ''subject'', the_value r ''object'', the_value r ''predicate'')"

definition is_bnode :: "binding \<Rightarrow> bool" where
  "is_bnode r = (case r ''object'' of None \<Rightarrow> False | Some t \<Rightarrow> ttype t = ''bnode'')"

text \<open>The \<^verbatim>\<open>add_node_attribute\<close> calls that flushing the dict \<^verbatim>\<open>d\<close> makes, in order.\<close>

definition flush_calls :: "node_dict \<Rightarrow> call list" where
  "flush_calls d =
     concat (map (\<lambda>(node, attr_dict).
                    map (\<lambda>(key, val). Add_node_attribute node key val) attr_dict) d)"

section \<open>Fixtures\<close>

text \<open>
  Modelled from the spec: \<^verbatim>\<open>un_camel_case\<close> of \<^verbatim>\<open>kgx.utils.kgx_utils\<close>, which is not among
  the source files. The spec (sections 4.5 and 8) has it turn camel case into words, so
  that \<^verbatim>\<open>GeneProduct\<close> becomes \<^verbatim>\<open>gene product\<close>: a blank goes before every capital but
  the first, and capitals become small letters. Only the examples below use it; the
  theorems hold for every function in its place.
\<close>

definition is_upper :: "char \<Rightarrow> bool" where
  "is_upper c = (let n = (of_char c :: nat) in 65 \<le> n \<and> n \<le> 90)"

definition lower :: "char \<Rightarrow> char" where
  "lower c = (if is_upper c then char_of (of_char c + (32 :: nat)) else c)"

fun un_camel_rest :: "string \<Rightarrow> string" where
  "un_camel_rest [] = []"
| "un_camel_rest (c # cs) =
     (if is_upper c then CHR '' '' # lower c # un_camel_rest cs else c # un_camel_rest cs)"

definition un_camel_case :: "string \<Rightarrow> string" where
  "un_camel_case s = (case s of [] \<Rightarrow> [] | c # cs \<Rightarrow> lower c # un_camel_rest cs)"

text \<open>A graph with a typed node, a node that has a category and a type, and a bare node.\<close>

definition typed_graph :: transformer where
  "typed_graph =
     \<lparr>graph = \<lparr>g_nodes = [(''n1'', [(''type'', ''biolink:GeneProduct'')]),
                           (''n2'', [(''category'', ''foo''), (''type'', ''biolink:Gene'')]),
                           (''n3'', [])],
               g_edges = []\<rparr>,
      calls = []\<rparr>"

text \<open>
  The values of \<^verbatim>\<open>i\<close> for which the loop fetches a page: all of them up to and
  including the first that exceeds the limit, when there is a limit.
\<close>

fun until_limit :: "int option \<Rightarrow> int list \<Rightarrow> int list" where
  "until_limit limit [] = []"
| "until_limit limit (i # rest) =
     i # (if (case limit of None \<Rightarrow> False | Some l \<Rightarrow> i > l) then []
          else until_limit limit rest)"

text \<open>
  What one page at offset \<open>off\<close> adds to the calls: its own window, one \<^verbatim>\<open>add_edge\<close> for
  each row of the answer, and the node-attribute queries for the set of the answer's nodes.
\<close>

definition page_calls :: "endpoint \<Rightarrow> string \<Rightarrow> int \<Rightarrow> int \<Rightarrow> call list \<Rightarrow> bool" where
  "page_calls ep a step off cs =
     (edge_windows cs = [(a, off, step)] \<and>
      edge_calls cs = map edge_args (ep (Edge_query a off step)) \<and>
      (\<exists>node_list.
         efold collect_node (ep (Edge_query a off step)) [] = Inr node_list \<and>
         node_queries cs = map (filter truthy) (grouper (map Some node_list) 10000 None)))"

text \<open>
  The offsets of the pages fetched for one predicate whose count query reported
  \<open>count\<close>, and what the body of the outer loop adds to the calls for it: the count
  query, then the calls of these pages.
\<close>

definition page_offsets :: "int option \<Rightarrow> int \<Rightarrow> int list" where
  "page_offsets limit count =
     map (\<lambda>i. i - 1000) (until_limit limit (py_range 1000 (count + 1000) 1000))"

definition predicate_calls ::
  "endpoint \<Rightarrow> int option \<Rightarrow> int \<Rightarrow> string \<Rightarrow> call list \<Rightarrow> bool"
where
  "predicate_calls ep limit count p cs =
     (\<exists>css. cs = Query (Count_query (angle p)) # concat css \<and>
            list_all2 (page_calls ep (angle p) 1000) (page_offsets limit count) css)"

text \<open>
  The node-attribute queries that a page with the rows \<open>rows\<close> sends: \<^verbatim>\<open>load_nodes\<close> on
  the set of the rows' subjects and objects.
\<close>

definition page_node_queries :: "binding list \<Rightarrow> string option list list" where
  "page_node_queries rows =
     (case efold collect_node rows [] of
        Inl e \<Rightarrow> []
      | Inr node_list \<Rightarrow> map (filter truthy) (grouper (map Some node_list) 10000 None))"

text \<open>Rows and endpoints for the examples.\<close>

definition uri :: "string \<Rightarrow> rdf_term" where
  "uri v = \<lparr>ttype = ''uri'', tvalue = v\<rparr>"

definition literal :: "string \<Rightarrow> rdf_term" where
  "literal v = \<lparr>ttype = ''literal'', tvalue = v\<rparr>"

definition bnode :: "string \<Rightarrow> rdf_term" where
  "bnode v = \<lparr>ttype = ''bnode'', tvalue = v\<rparr>"

definition row :: "string \<Rightarrow> string \<Rightarrow> rdf_term \<Rightarrow> binding" where
  "row s p ob = [''subject'' \<mapsto> uri s, ''predicate'' \<mapsto> uri p, ''object'' \<mapsto> ob]"

definition count_row :: "string \<Rightarrow> binding" where
  "count_row n = [''triples'' \<mapsto> literal n]"

definition empty_transformer :: transformer where
  "empty_transformer = \<lparr>graph = \<lparr>g_nodes = [], g_edges = []\<rparr>, calls = []\<rparr>"

text \<open>
  An endpoint that reports the count \<open>n\<close> for every association, answers the edge page
  at offset \<open>off\<close> with \<open>pages off\<close> and every node-attribute query with \<open>props\<close>.
\<close>

fun fixture :: "string \<Rightarrow> (int \<Rightarrow> binding list) \<Rightarrow> binding list \<Rightarrow> endpoint" where
  "fixture n pages props (Count_query a) = [count_row n]"
| "fixture n pages props (Edge_query a off lim) = pages off"
| "fixture n pages props (Node_properties_query vs) = props"
| "fixture n pages props (Generic_edge_query p) = pages 0"

text \<open>Pages of different lengths: two rows at offset 0, one at 1000, none elsewhere.\<close>

definition uneven_pages :: "int \<Rightarrow> binding list" where
  "uneven_pages off =
     (if off = 0 then [row ''s1'' ''p'' (uri ''o1''), row ''s2'' ''p'' (uri ''o2'')]
      else if off = 1000 then [row ''s3'' ''p'' (uri ''o3'')]
      else [])"

definition no_pages :: "int \<Rightarrow> binding list" where
  "no_pages off = []"

text \<open>
  A row of the association-scoped edge query, which also binds one property of the
  association; an association with two properties comes back as two rows with the same
  subject, predicate and object.
\<close>

definition property_row :: "string \<Rightarrow> string \<Rightarrow> rdf_term \<Rightarrow> string \<Rightarrow> string \<Rightarrow> binding" where
  "property_row s p ob k v =
     (row s p ob)(''edge_property_key'' \<mapsto> uri k, ''edge_property_value'' \<mapsto> literal v)"

definition repeated_pages :: "int \<Rightarrow> binding list" where
  "repeated_pages off =
     (if off = 0
      then [property_row ''s'' ''p'' (uri ''o'') ''k1'' ''v1'',
            property_row ''s'' ''p'' (uri ''o'') ''k2'' ''v2'']
      else [])"

text \<open>Two pages that name the same two nodes: one row at offset 0, one at 1000.\<close>

definition shared_node_pages :: "int \<Rightarrow> binding list" where
  "shared_node_pages off =
     (if off = 0 then [row ''s'' ''p'' (uri ''o1'')]
      else if off = 1000 then [row ''s'' ''p'' (uri ''o2'')]
      else [])"

text \<open>25000 node identifiers, each different from the others.\<close>

definition many_nodes :: "string list" where
  "many_nodes = map (\<lambda>k. angle (replicate k CHR ''n'')) [0..<25000]"

text \<open>
  The graph-mutator call that the generic loader makes for a row that binds subject,
  predicate and object.
\<close>

definition is_literal :: "binding \<Rightarrow> bool" where
  "is_literal r = (case r ''object'' of None \<Rightarrow> False | Some t \<Rightarrow> ttype t = ''literal'')"

definition routed :: "binding \<Rightarrow> call" where
  "routed r =
     (if is_literal r
      then Add_node_attribute (the_value r ''subject'') (the_value r ''predicate'')
             (the_value r ''object'')
      else Add_edge (the_value r ''subject'') (the_value r ''object'')
             (the_value r ''predicate''))"

text \<open>The answer with the single literal triple (S, P, "42").\<close>

definition literal_pages :: "int \<Rightarrow> binding list" where
  "literal_pages off = [row ''S'' ''P'' (literal ''42'')]"

text \<open>
  Node attributes of \<^verbatim>\<open>s\<close>: a name under the \<^verbatim>\<open>bl:\<close> prefix and a reference to a blank
  node.
\<close>

definition node_rows :: "binding list" where
  "node_rows = [row ''s'' ''bl:name'' (literal ''x''), row ''s'' ''ref'' (bnode ''b0'')]"

section \<open>The calls of a run, as a function of the endpoint\<close>

text \<open>
  The effect of one logged call on the graph: a query has none, the two mutator calls
  are the graph mutator's.
\<close>

fun apply_call :: "call \<Rightarrow> graph \<Rightarrow> graph" where
  "apply_call (Query q) g = g"
| "apply_call (Add_edge s ob p) g = G_add_edge s ob p g"
| "apply_call (Add_node_attribute n k v) g = G_add_node_attribute n k v g"

text \<open>
  The calls of one round of \<^verbatim>\<open>load_nodes\<close> on the VALUES sequence \<open>vs\<close>: the query, then
  the attributes that its answer leaves in the dict.
\<close>

definition chunk_attributes :: "endpoint \<Rightarrow> string option list \<Rightarrow> call list" where
  "chunk_attributes ep vs =
     (case efold record_binding (ep (Node_properties_query vs)) [] of
        Inl e \<Rightarrow> []
      | Inr d \<Rightarrow> flush_calls d)"

definition nodes_trace :: "endpoint \<Rightarrow> string option list list \<Rightarrow> call list" where
  "nodes_trace ep vss =
     concat (map (\<lambda>vs. Query (Node_properties_query vs) # chunk_attributes ep vs) vss)"

text \<open>
  The calls of one page: the edge query, the calls of \<^verbatim>\<open>load_nodes\<close> on the nodes of its
  rows, then one \<^verbatim>\<open>add_edge\<close> for each row.
\<close>

definition row_edge :: "binding \<Rightarrow> call" where
  "row_edge r =
     Add_edge (the_value r ''subject'') (the_value r ''object'') (the_value r ''predicate'')"

definition page_trace :: "endpoint \<Rightarrow> string \<Rightarrow> int \<Rightarrow> int \<Rightarrow> call list" where
  "page_trace ep a step off =
     Query (Edge_query a off step)
       # nodes_trace ep (page_node_queries (ep (Edge_query a off step)))
       @ map row_edge (ep (Edge_query a off step))"

text \<open>The calls for one predicate, and for a list of predicates.\<close>

definition predicate_trace :: "endpoint \<Rightarrow> int option \<Rightarrow> int \<Rightarrow> string \<Rightarrow> call list" where
  "predicate_trace ep limit count p =
     Query (Count_query (angle p))
       # concat (map (page_trace ep (angle p) 1000) (page_offsets limit count))"

definition fetch_trace ::
  "endpoint \<Rightarrow> int option \<Rightarrow> (string \<Rightarrow> int) \<Rightarrow> string list \<Rightarrow> call list"
where
  "fetch_trace ep limit count ps = concat (map (\<lambda>p. predicate_trace ep limit (count p) p) ps)"

text \<open>
  A state reached from another by logged calls only: the log has grown by some calls,
  and the graph is the old one with these calls applied in order.
\<close>

definition graph_follows :: "transformer \<Rightarrow> transformer \<Rightarrow> bool" where
  "graph_follows st st' =
     (\<exists>cs. calls st' = calls st @ cs \<and> graph st' = fold apply_call cs (graph st))"

text \<open>
  The attributes of a node after \<^verbatim>\<open>categorize\<close>, written out, with \<open>f\<close> for
  \<^verbatim>\<open>un_camel_case\<close>: a node with a \<^verbatim>\<open>type\<close> and no \<^verbatim>\<open>category\<close> gets the category as a
  new last attribute.
\<close>

definition with_category :: "(string \<Rightarrow> string) \<Rightarrow> attrs \<Rightarrow> attrs" where
  "with_category f data =
     (if ''category'' \<notin> fst ` set data \<and> ''type'' \<in> fst ` set data
      then data @ [(''category'', f (str_replace ''biolink:'' [] (the (map_of data ''type''))))]
      else data)"

text \<open>
  One row that names a typed node: every edge page is the row (s1, p, o1), and every
  node-attribute answer gives \<^verbatim>\<open>s1\<close> the type \<^verbatim>\<open>biolink:GeneProduct\<close>.
\<close>

definition typed_pages :: "int \<Rightarrow> binding list" where
  "typed_pages off = [row ''s1'' ''p'' (uri ''o1'')]"

definition typed_rows :: "binding list" where
  "typed_rows = [row ''s1'' ''bl:type'' (literal ''biolink:GeneProduct'')]"

section \<open>Lemmas\<close>

text \<open>
  The equations of the functions defined by well-founded recursion are unfolded by hand:
  as rewrite rules they would unfold without end on an argument that is not a literal.
\<close>

declare py_range.simps [simp del]
declare grouper.simps [simp del]
declare replace_from.simps [simp del]

lemma categorize_data_idem:
  "categorize_data f (categorize_data f data) = categorize_data f data"
  by (auto simp: categorize_data_def AList.update_conv' split: option.splits)

lemma categorize_data_category:
  "map_of data ''category'' \<noteq> None \<Longrightarrow> categorize_data f data = data"
  by (auto simp: categorize_data_def split: option.splits)

lemma ebind_Inr_iff: "ebind m f = Inr y \<longleftrightarrow> (\<exists>x. m = Inr x \<and> f x = Inr y)"
  by (cases m) auto

lemma edge_windows_simps [simp]:
  "edge_windows [] = []"
  "edge_windows (c # cs) = window_of c @ edge_windows cs"
  "edge_windows (as @ bs) = edge_windows as @ edge_windows bs"
  by (simp_all add: edge_windows_def)

lemma node_queries_simps [simp]:
  "node_queries [] = []"
  "node_queries (c # cs) = values_of c @ node_queries cs"
  "node_queries (as @ bs) = node_queries as @ node_queries bs"
  by (simp_all add: node_queries_def)

lemma edge_calls_simps [simp]:
  "edge_calls [] = []"
  "edge_calls (c # cs) = edge_of c @ edge_calls cs"
  "edge_calls (as @ bs) = edge_calls as @ edge_calls bs"
  by (simp_all add: edge_calls_def)

lemma mutations_simps [simp]:
  "mutations [] = []"
  "mutations (c # cs) = mutation_of c @ mutations cs"
  "mutations (as @ bs) = mutations as @ mutations bs"
  by (simp_all add: mutations_def)

lemma efold_calls:
  assumes "\<And>x st. x \<in> set xs \<Longrightarrow> \<exists>st' cs. f x st = Inr st' \<and> calls st' = calls st @ cs \<and> P x cs"
  shows "\<exists>st' css. efold f xs st = Inr st' \<and> calls st' = calls st @ concat css \<and> list_all2 P xs css"
  using assms
proof (induction xs arbitrary: st)
  case Nil
  show ?case by (rule exI [of _ st], rule exI [of _ "[]"]) simp
next
  case (Cons x xs)
  from Cons.prems [of x st] obtain st1 cs where
    1: "f x st = Inr st1" "calls st1 = calls st @ cs" "P x cs" by auto
  from Cons.IH [of st1] Cons.prems obtain st' css where
    2: "efold f xs st1 = Inr st'" "calls st' = calls st1 @ concat css" "list_all2 P xs css"
    by (meson list.set_intros(2))
  show ?case
    by (rule exI [of _ st'], rule exI [of _ "cs # css"]) (simp add: 1 2)
qed

lemma split_char_bl:
  assumes "startswith p ''bl:''"
  shows "\<exists>a b rest. split_char CHR '':'' p = a # b # rest"
proof -
  from assms obtain q where p: "p = ''bl:'' @ q"
    by (metis append_take_drop_id startswith_def)
  obtain w ws where "split_char CHR '':'' q = w # ws"
    by (cases q; cases "split_char CHR '':'' q") (auto split: if_splits list.splits)
  then show ?thesis by (simp add: p)
qed

lemma record_binding_ok:
  assumes "spo_bound r"
  shows "\<exists>d'. record_binding r d = Inr d'"
proof -
  from assms obtain s p ob where
    r: "r ''subject'' = Some s" "r ''predicate'' = Some p" "r ''object'' = Some ob"
    by (auto simp: spo_bound_def)
  show ?thesis
  proof (cases "startswith (tvalue p) ''bl:''")
    case True
    from split_char_bl [OF True] obtain a b rest where
      "split_char CHR '':'' (tvalue p) = a # b # rest" by blast
    then show ?thesis by (simp add: record_binding_def lookup_def r True Let_def)
  next
    case False
    then show ?thesis by (simp add: record_binding_def lookup_def r Let_def)
  qed
qed

lemma efold_record_ok:
  "list_all spo_bound rs \<Longrightarrow> \<exists>d'. efold record_binding rs d = Inr d'"
proof (induction rs arbitrary: d)
  case Nil
  then show ?case by simp
next
  case (Cons r rs)
  then obtain d1 where "record_binding r d = Inr d1"
    using record_binding_ok [of r d] by auto
  with Cons show ?case by simp
qed


lemma fold_attr_calls:
  "calls (fold (\<lambda>(key, val) st2. add_node_attribute node key val st2) attr_dict st) =
     calls st @ map (\<lambda>(key, val). Add_node_attribute node key val) attr_dict"
  by (induction attr_dict arbitrary: st) (auto simp: add_node_attribute_def)

lemma flush_calls: "calls (flush d st) = calls st @ flush_calls d"
  unfolding flush_def flush_calls_def
  by (induction d arbitrary: st) (auto simp: fold_attr_calls)

lemma flush_calls_proj [simp]:
  "edge_windows (flush_calls d) = []"
  "edge_calls (flush_calls d) = []"
  "node_queries (flush_calls d) = []"
  unfolding flush_calls_def
  by (induction d; simp add: edge_windows_def edge_calls_def node_queries_def split_def comp_def)+

lemma truthy_simps [simp]: "\<not> truthy None" "truthy (Some s) \<longleftrightarrow> s \<noteq> []"
  by (simp_all add: truthy_def)

lemma load_chunk_calls:
  assumes "list_all spo_bound (ep (Node_properties_query (filter truthy nodes)))"
  shows "\<exists>st' cs. load_chunk ep nodes st = Inr st' \<and> calls st' = calls st @ cs \<and>
           (edge_windows cs = [] \<and> edge_calls cs = [] \<and> node_queries cs = [filter truthy nodes])"
proof -
  from efold_record_ok [OF assms] obtain d where
    d: "efold record_binding (ep (Node_properties_query (filter truthy nodes))) [] = Inr d"
    by blast
  show ?thesis
    by (simp add: load_chunk_def Let_def query_def d flush_calls)
qed

lemma chunks_proj:
  "list_all2 (\<lambda>nodes cs. edge_windows cs = [] \<and> edge_calls cs = [] \<and> node_queries cs = [f nodes]) xs css
   \<Longrightarrow> edge_windows (concat css) = [] \<and> edge_calls (concat css) = [] \<and>
       node_queries (concat css) = map f xs"
  by (induction rule: list_all2_induct) auto

lemma load_nodes_calls:
  assumes "rows_bound ep"
  shows "\<exists>st' cs. load_nodes ep node_set st = Inr st' \<and> calls st' = calls st @ cs \<and>
           edge_windows cs = [] \<and> edge_calls cs = [] \<and>
           node_queries cs = map (filter truthy) (grouper (map Some node_set) 10000 None)"
proof -
  let ?P = "\<lambda>nodes cs. edge_windows cs = [] \<and> edge_calls cs = [] \<and> node_queries cs = [filter truthy nodes]"
  let ?xs = "grouper (map Some node_set) 10000 None"
  have "\<And>x st. \<exists>st' cs. load_chunk ep x st = Inr st' \<and> calls st' = calls st @ cs \<and> ?P x cs"
    using assms by (intro load_chunk_calls) (simp add: rows_bound_def)
  from efold_calls [of ?xs "load_chunk ep" ?P st, OF this]
  obtain st' css where
    1: "efold (load_chunk ep) ?xs st = Inr st'" "calls st' = calls st @ concat css"
      "list_all2 ?P ?xs css" by blast
  from chunks_proj [OF 1(3)] 1(1,2) show ?thesis
    unfolding load_nodes_def by blast
qed

lemma collect_node_ok:
  assumes "spo_bound r"
  shows "collect_node r nl =
           Inr (set_add (angle (the_value r ''object'')) (set_add (angle (the_value r ''subject'')) nl))"
  using assms
  by (auto simp: collect_node_def spo_bound_def lookup_def the_value_def Let_def)

lemma efold_collect_ok:
  "list_all spo_bound rs \<Longrightarrow> \<exists>nl'. efold collect_node rs nl = Inr nl'"
  by (induction rs arbitrary: nl) (auto simp: collect_node_ok)

lemma load_edge_ok:
  assumes "spo_bound r"
  shows "\<exists>st'. load_edge r st = Inr st' \<and> calls st' = calls st @ [Add_edge (the_value r ''subject'') (the_value r ''object'') (the_value r ''predicate'')]"
  using assms
  by (auto simp: load_edge_def spo_bound_def lookup_def the_value_def add_edge_def)

lemma efold_load_edge:
  "list_all spo_bound rs \<Longrightarrow>
   \<exists>st' cs. efold load_edge rs st = Inr st' \<and> calls st' = calls st @ cs \<and>
     edge_windows cs = [] \<and> node_queries cs = [] \<and> edge_calls cs = map edge_args rs"
proof (induction rs arbitrary: st)
  case Nil
  show ?case by (rule exI [of _ st], rule exI [of _ "[]"]) simp
next
  case (Cons r rs)
  from Cons.prems load_edge_ok [of r st] obtain st1 where
    1: "load_edge r st = Inr st1"
       "calls st1 = calls st @ [Add_edge (the_value r ''subject'') (the_value r ''object'') (the_value r ''predicate'')]"
    by auto
  from Cons.IH [of st1] Cons.prems obtain st' cs where
    2: "efold load_edge rs st1 = Inr st'" "calls st' = calls st1 @ cs"
       "edge_windows cs = []" "node_queries cs = []" "edge_calls cs = map edge_args rs"
    by auto
  show ?case
    by (rule exI [of _ st'],
        rule exI [of _ "Add_edge (the_value r ''subject'') (the_value r ''object'') (the_value r ''predicate'') # cs"])
       (simp add: 1 2 edge_args_def)
qed

lemma load_page_calls:
  assumes "rows_bound ep"
  shows "\<exists>st' cs. load_page ep a step start st = Inr st' \<and> calls st' = calls st @ cs \<and>
           page_calls ep a step start cs"
proof -
  let ?rs = "ep (Edge_query a start step)"
  let ?st1 = "st\<lparr>calls := calls st @ [Query (Edge_query a start step)]\<rparr>"
  have rs: "list_all spo_bound ?rs"
    using assms by (simp add: rows_bound_def)
  from efold_collect_ok [OF rs] obtain nl where
    nl: "efold collect_node ?rs [] = Inr nl" by blast
  from load_nodes_calls [OF assms, of nl ?st1] obtain st2 cs2 where
    2: "load_nodes ep nl ?st1 = Inr st2" "calls st2 = calls ?st1 @ cs2"
       "edge_windows cs2 = []" "edge_calls cs2 = []"
       "node_queries cs2 = map (filter truthy) (grouper (map Some nl) 10000 None)"
    by blast
  from efold_load_edge [OF rs, of st2] obtain st3 cs3 where
    3: "efold load_edge ?rs st2 = Inr st3" "calls st3 = calls st2 @ cs3"
       "edge_windows cs3 = []" "node_queries cs3 = []" "edge_calls cs3 = map edge_args ?rs"
    by blast
  show ?thesis
    by (rule exI [of _ st3], rule exI [of _ "Query (Edge_query a start step) # cs2 @ cs3"])
       (simp add: load_page_def query_def nl 2 3 page_calls_def)
qed

lemma page_loop_calls:
  assumes "rows_bound ep"
  shows "\<exists>st' css. page_loop ep limit a s (py_range i b s) (i - s) st = Inr st' \<and>
           calls st' = calls st @ concat css \<and>
           list_all2 (page_calls ep a s) (map (\<lambda>i. i - s) (until_limit limit (py_range i b s))) css"
proof (induction i b s arbitrary: st rule: py_range.induct)
  case (1 i b s)
  show ?case
  proof (cases "0 < s \<and> i < b")
    case False
    then have "py_range i b s = []" by (subst py_range.simps) simp
    then show ?thesis
      by (intro exI [of _ st] exI [of _ "[]"]) simp
  next
    case True
    then have r: "py_range i b s = i # py_range (i + s) b s" by (subst py_range.simps) simp
    from load_page_calls [OF assms, of a s "i - s" st] obtain st1 cs where
      p: "load_page ep a s (i - s) st = Inr st1" "calls st1 = calls st @ cs"
         "page_calls ep a s (i - s) cs" by blast
    show ?thesis
    proof (cases "case limit of None \<Rightarrow> False | Some l \<Rightarrow> i > l")
      case True
      then show ?thesis
        apply (subst (1 2) r)
        apply (rule exI [of _ st1], rule exI [of _ "[cs]"])
        apply (simp add: p)
        done
    next
      case False
      from "1.IH" [OF \<open>0 < s \<and> i < b\<close>, of st1] obtain st' css where
        h: "page_loop ep limit a s (py_range (i + s) b s) (i + s - s) st1 = Inr st'"
           "calls st' = calls st1 @ concat css"
           "list_all2 (page_calls ep a s) (map (\<lambda>i. i - s) (until_limit limit (py_range (i + s) b s))) css"
        by blast
      from h(1) have h1: "page_loop ep limit a s (py_range (i + s) b s) i st1 = Inr st'" by simp
      show ?thesis
        apply (subst (1 2) r)
        apply (rule exI [of _ st'], rule exI [of _ "cs # css"])
        using False apply (simp add: p h1 h(2,3))
        done
    qed
  qed
qed

lemma until_limit_None [simp]: "until_limit None xs = xs"
  by (induction xs) auto

lemma red_load_predicate_calls:
  assumes "rows_bound ep" and "triples_count (ep (Count_query (angle p))) = Inr count"
  shows "\<exists>st' cs. red_load_predicate ep limit p st = Inr st' \<and> calls st' = calls st @ cs \<and>
           predicate_calls ep limit count p cs"
proof -
  let ?st1 = "st\<lparr>calls := calls st @ [Query (Count_query (angle p))]\<rparr>"
  from page_loop_calls [OF assms(1), of limit "angle p" 1000 1000 "count + 1000" ?st1]
  obtain st' css where
    1: "page_loop ep limit (angle p) 1000 (py_range 1000 (count + 1000) 1000) 0 ?st1 = Inr st'"
       "calls st' = calls ?st1 @ concat css"
       "list_all2 (page_calls ep (angle p) 1000) (page_offsets limit count) css"
    by (auto simp: page_offsets_def)
  show ?thesis
    apply (rule exI [of _ st'], rule exI [of _ "Query (Count_query (angle p)) # concat css"])
    using 1 apply (auto simp: red_load_predicate_def query_def assms(2) Let_def predicate_calls_def)
    done
qed

lemma calls_categorize [simp]: "calls (categorize f st) = calls st"
  by (simp add: categorize_def)

lemma red_load_calls:
  assumes "rows_bound ep"
    and "\<forall>p \<in> set ps. triples_count (ep (Count_query (angle p))) = Inr (count p)"
  shows "\<exists>st' pcs. red_load_networkx_graph f ep limit ps st = Inr st' \<and>
           calls st' = calls st @ concat pcs \<and>
           list_all2 (\<lambda>p cs. predicate_calls ep limit (count p) p cs) ps pcs"
proof -
  have "\<And>p st. p \<in> set ps \<Longrightarrow> \<exists>st' cs. red_load_predicate ep limit p st = Inr st' \<and>
          calls st' = calls st @ cs \<and> predicate_calls ep limit (count p) p cs"
    using assms by (intro red_load_predicate_calls) auto
  from efold_calls [of ps "red_load_predicate ep limit"
      "\<lambda>p cs. predicate_calls ep limit (count p) p cs" st, OF this]
  obtain st1 pcs where
    1: "efold (red_load_predicate ep limit) ps st = Inr st1" "calls st1 = calls st @ concat pcs"
       "list_all2 (\<lambda>p cs. predicate_calls ep limit (count p) p cs) ps pcs"
    by blast
  show ?thesis
    by (rule exI [of _ "categorize f st1"], rule exI [of _ pcs])
       (simp add: red_load_networkx_graph_def 1)
qed

lemma pages_windows:
  "list_all2 (page_calls ep a s) offs css \<Longrightarrow>
   edge_windows (concat css) = map (\<lambda>off. (a, off, s)) offs"
  by (induction rule: list_all2_induct) (auto simp: page_calls_def)

lemma pages_edges:
  "list_all2 (page_calls ep a s) offs css \<Longrightarrow>
   edge_calls (concat css) = concat (map (\<lambda>off. map edge_args (ep (Edge_query a off s))) offs)"
  by (induction rule: list_all2_induct) (auto simp: page_calls_def)

lemma predicate_windows:
  "predicate_calls ep limit c p cs \<Longrightarrow>
   edge_windows cs = map (\<lambda>off. (angle p, off, 1000)) (page_offsets limit c)"
  by (auto simp: predicate_calls_def pages_windows)

lemma predicate_edges:
  "predicate_calls ep limit c p cs \<Longrightarrow>
   edge_calls cs = concat (map (\<lambda>(a, off, lim). map edge_args (ep (Edge_query a off lim))) (edge_windows cs))"
  by (auto simp: predicate_calls_def pages_windows pages_edges comp_def)

lemma fetch_windows:
  "list_all2 (\<lambda>p cs. predicate_calls ep limit (count p) p cs) ps pcs \<Longrightarrow>
   edge_windows (concat pcs) =
     concat (map (\<lambda>p. map (\<lambda>off. (angle p, off, 1000)) (page_offsets limit (count p))) ps)"
  by (induction rule: list_all2_induct) (auto simp: predicate_windows)

lemma fetch_edges:
  "list_all2 (\<lambda>p cs. predicate_calls ep limit (count p) p cs) ps pcs \<Longrightarrow>
   edge_calls (concat pcs) =
     concat (map (\<lambda>(a, off, lim). map edge_args (ep (Edge_query a off lim)))
                 (edge_windows (concat pcs)))"
  by (induction rule: list_all2_induct) (auto simp: predicate_edges)

lemma page_offsets_2500: "page_offsets None 2500 = [0, 1000, 2000]"
  by (simp add: page_offsets_def py_range.simps)

lemma page_offsets_0: "page_offsets None 0 = []"
  by (simp add: page_offsets_def py_range.simps)

lemma spo_bound_row [simp]: "spo_bound (row s p ob)"
  by (simp add: spo_bound_def row_def)

lemma rows_bound_fixture:
  "(\<And>off. list_all spo_bound (pages off)) \<Longrightarrow> list_all spo_bound props \<Longrightarrow>
   rows_bound (fixture n pages props)"
  unfolding rows_bound_def
proof (intro allI impI)
  fix q
  assume a: "\<And>off. list_all spo_bound (pages off)" "list_all spo_bound props" "row_query q"
  then show "list_all spo_bound (fixture n pages props q)"
    by (cases q) auto
qed

lemma triples_count_fixture:
  "py_int n = Inr c \<Longrightarrow> triples_count (fixture n pages props (Count_query a)) = Inr c"
  by (simp add: triples_count_def count_row_def lookup_def literal_def)

lemma py_int_examples:
  "py_int ''0'' = Inr 0" "py_int ''1'' = Inr 1" "py_int ''1001'' = Inr 1001"
  "py_int ''1500'' = Inr 1500" "py_int ''2000'' = Inr 2000" "py_int ''2500'' = Inr 2500"
  "py_int ''5000'' = Inr 5000"
  by (simp_all add: py_int_def parse_nat_def digit_val_def)

lemma py_range_bounds: "x \<in> set (py_range a b s) \<Longrightarrow> a \<le> x \<and> x < b"
proof (induction a b s rule: py_range.induct)
  case (1 a b s)
  show ?case
  proof (cases "0 < s \<and> a < b")
    case True
    with "1.prems" have "x = a \<or> x \<in> set (py_range (a + s) b s)"
      by (subst (asm) py_range.simps) simp
    with True "1.IH" show ?thesis by auto
  next
    case False
    with "1.prems" show ?thesis by (subst (asm) py_range.simps) simp
  qed
qed

lemma py_range_shift:
  "map (\<lambda>i. i - s) (py_range (a + s) (b + s) s) = py_range a b s"
proof (induction a b s rule: py_range.induct)
  case (1 a b s)
  show ?case
  proof (cases "0 < s \<and> a < b")
    case True
    then show ?thesis
      using "1.IH" by (subst py_range.simps, subst (2) py_range.simps) simp
  next
    case False
    then show ?thesis
      by (subst py_range.simps, subst (2) py_range.simps) auto
  qed
qed

lemma set_py_range:
  assumes "0 < s"
  shows "x \<in> set (py_range a b s) \<longleftrightarrow> a \<le> x \<and> x < b \<and> s dvd (x - a)"
  using assms
proof (induction a b s arbitrary: x rule: py_range.induct)
  case (1 a b s)
  note pos = \<open>0 < s\<close>
  show ?case
  proof (cases "0 < s \<and> a < b")
    case True
    have d: "s dvd (x - (a + s)) \<longleftrightarrow> s dvd (x - a)"
    proof -
      have "x - a = (x - (a + s)) + s" by simp
      then show ?thesis by (metis dvd_add_triv_right_iff)
    qed
    have g: "a + s \<le> x" if "a \<le> x" "x \<noteq> a" "s dvd (x - a)"
    proof -
      from that have "0 < x - a" by simp
      with that(3) have "s \<le> x - a" by (rule zdvd_imp_le)
      then show ?thesis by simp
    qed
    have "x \<in> set (py_range a b s) \<longleftrightarrow> x = a \<or> x \<in> set (py_range (a + s) b s)"
      using True by (subst py_range.simps) simp
    also have "\<dots> \<longleftrightarrow> x = a \<or> (a + s \<le> x \<and> x < b \<and> s dvd (x - (a + s)))"
      using "1.IH" [OF True pos, of x] by simp
    also have "\<dots> \<longleftrightarrow> a \<le> x \<and> x < b \<and> s dvd (x - a)"
      using True g d by auto
    finally show ?thesis .
  next
    case False
    with pos show ?thesis by (subst py_range.simps) auto
  qed
qed

lemma limited_offsets:
  "map (\<lambda>i. i - s) (until_limit (Some l) (py_range (a + s) (b + s) s)) =
     filter (\<lambda>off. off = a \<or> off \<le> l) (py_range a b s)"
proof (induction a b s rule: py_range.induct)
  case (1 a b s)
  show ?case
  proof (cases "0 < s \<and> a < b")
    case False
    have e1: "py_range (a + s) (b + s) s = []"
      using False by (subst py_range.simps) simp
    have e2: "py_range a b s = []"
      using False by (subst py_range.simps) simp
    show ?thesis by (simp add: e1 e2)
  next
    case True
    have l: "py_range (a + s) (b + s) s = (a + s) # py_range (a + s + s) (b + s) s"
      using True by (subst py_range.simps) simp
    have r: "py_range a b s = a # py_range (a + s) b s"
      using True by (subst py_range.simps) simp
    have ge: "a + s \<le> x" if "x \<in> set (py_range (a + s) b s)" for x
      using py_range_bounds [OF that] by simp
    show ?thesis
    proof (cases "a + s > l")
      case True
      have "\<And>x. x \<in> set (py_range (a + s) b s) \<Longrightarrow> \<not> (x = a \<or> x \<le> l)"
      proof -
        fix x assume "x \<in> set (py_range (a + s) b s)"
        from ge [OF this] True \<open>0 < s \<and> a < b\<close> show "\<not> (x = a \<or> x \<le> l)" by linarith
      qed
      then have "filter (\<lambda>off. off = a \<or> off \<le> l) (py_range (a + s) b s) = []"
        by (simp only: filter_empty_conv) blast
      then show ?thesis using True by (simp add: l r)
    next
      case False
      have "\<And>x. x \<in> set (py_range (a + s) b s) \<Longrightarrow>
              (x = a \<or> x \<le> l) = (x = a + s \<or> x \<le> l)"
      proof -
        fix x assume "x \<in> set (py_range (a + s) b s)"
        from ge [OF this] False \<open>0 < s \<and> a < b\<close>
        show "(x = a \<or> x \<le> l) = (x = a + s \<or> x \<le> l)" by linarith
      qed
      then have "filter (\<lambda>off. off = a \<or> off \<le> l) (py_range (a + s) b s) =
            filter (\<lambda>off. off = a + s \<or> off \<le> l) (py_range (a + s) b s)"
        by (intro filter_cong refl)
      then show ?thesis
        using False "1.IH" [OF \<open>0 < s \<and> a < b\<close>] by (simp add: l r)
    qed
  qed
qed

lemma page_offsets_None: "page_offsets None count = py_range 0 count 1000"
  using py_range_shift [of 1000 0 count] by (simp add: page_offsets_def)

lemma page_offsets_Some:
  "page_offsets (Some l) count = filter (\<lambda>off. off = 0 \<or> off \<le> l) (py_range 0 count 1000)"
  using limited_offsets [of 1000 l 0 count] by (simp add: page_offsets_def)

lemma categorize_data_typed:
  "map_of (categorize_data f data) ''type'' \<noteq> None \<Longrightarrow>
   map_of (categorize_data f data) ''category'' \<noteq> None"
  by (auto simp: categorize_data_def AList.update_conv' split: option.splits if_splits)

lemma categorize_typed:
  assumes "(n, data) \<in> set (g_nodes (graph (categorize f st)))"
    and "map_of data ''type'' \<noteq> None"
  shows "map_of data ''category'' \<noteq> None"
proof -
  from assms(1) obtain d where "data = categorize_data f d"
    by (auto simp: categorize_def)
  with assms(2) show ?thesis
    using categorize_data_typed [of f d] by blast
qed

lemma red_load_categorized:
  assumes "red_load_networkx_graph f ep limit ps st = Inr st'"
  shows "\<exists>st1. st' = categorize f st1"
  using assms by (auto simp: red_load_networkx_graph_def ebind_Inr_iff)

lemma run_calls:
  assumes "red_load_networkx_graph f ep limit ps empty_transformer = Inr st'"
    and "calls st' = calls empty_transformer @ cs"
  shows "calls_of (red_load_networkx_graph f ep limit ps empty_transformer) = cs"
  using assms by (simp add: empty_transformer_def)

lemma run_windows:
  assumes "rows_bound ep"
    and "\<forall>p \<in> set ps. triples_count (ep (Count_query (angle p))) = Inr (count p)"
  shows "edge_windows (calls_of (red_load_networkx_graph f ep limit ps empty_transformer)) =
           concat (map (\<lambda>p. map (\<lambda>off. (angle p, off, 1000)) (page_offsets limit (count p))) ps)"
proof -
  from red_load_calls [OF assms, of f limit empty_transformer]
  obtain st' pcs where
    1: "red_load_networkx_graph f ep limit ps empty_transformer = Inr st'"
       "calls st' = calls empty_transformer @ concat pcs"
       "list_all2 (\<lambda>p cs. predicate_calls ep limit (count p) p cs) ps pcs"
    by auto
  from run_calls [OF 1(1,2)] fetch_windows [OF 1(3)] show ?thesis by simp
qed

lemma run_edges:
  assumes "rows_bound ep"
    and "\<forall>p \<in> set ps. triples_count (ep (Count_query (angle p))) = Inr (count p)"
  shows "edge_calls (calls_of (red_load_networkx_graph f ep limit ps empty_transformer)) =
           concat (map (\<lambda>(a, off, lim). map edge_args (ep (Edge_query a off lim)))
             (edge_windows (calls_of (red_load_networkx_graph f ep limit ps empty_transformer))))"
proof -
  from red_load_calls [OF assms, of f limit empty_transformer]
  obtain st' pcs where
    1: "red_load_networkx_graph f ep limit ps empty_transformer = Inr st'"
       "calls st' = calls empty_transformer @ concat pcs"
       "list_all2 (\<lambda>p cs. predicate_calls ep limit (count p) p cs) ps pcs"
    by auto
  from run_calls [OF 1(1,2)] fetch_edges [OF 1(3)] show ?thesis by simp
qed

lemma triples_count_row:
  "py_int n = Inr c \<Longrightarrow> triples_count [count_row n] = Inr c"
  by (simp add: triples_count_def count_row_def lookup_def literal_def)

lemma rows_bound_no_pages: "rows_bound (fixture n no_pages [])"
  by (rule rows_bound_fixture) (simp_all add: no_pages_def)

lemma rows_bound_uneven: "rows_bound (fixture n uneven_pages [])"
  by (rule rows_bound_fixture) (simp_all add: uneven_pages_def)

lemma angle_nonempty [simp]: "angle x \<noteq> []"
  by (simp add: angle_def)

lemma collect_result:
  assumes "list_all spo_bound rs" and "distinct nl"
  shows "\<exists>nl'. efold collect_node rs nl = Inr nl' \<and> distinct nl' \<and>
           set nl' = set nl \<union> (\<Union>r \<in> set rs. {angle (the_value r ''subject''),
                                                   angle (the_value r ''object'')})"
  using assms
proof (induction rs arbitrary: nl)
  case Nil
  then show ?case by simp
next
  case (Cons r rs)
  let ?nl1 = "set_add (angle (the_value r ''object'')) (set_add (angle (the_value r ''subject'')) nl)"
  have d: "distinct ?nl1"
    using Cons.prems(2) by (auto simp: set_add_def)
  have s: "set ?nl1 = set nl \<union> {angle (the_value r ''subject''), angle (the_value r ''object'')}"
    by (auto simp: set_add_def)
  from Cons.prems(1) have b: "spo_bound r" "list_all spo_bound rs" by simp_all
  from Cons.IH [OF b(2) d] obtain nl' where
    1: "efold collect_node rs ?nl1 = Inr nl'" "distinct nl'"
       "set nl' = set ?nl1 \<union> (\<Union>r \<in> set rs. {angle (the_value r ''subject''),
                                                   angle (the_value r ''object'')})"
    by blast
  show ?case
    by (rule exI [of _ nl']) (use 1 s in \<open>simp add: collect_node_ok [OF b(1)] Un_assoc\<close>)
qed

lemma grouper_concat_filter:
  assumes "0 < n" and "\<not> P f"
  shows "concat (map (filter P) (grouper xs n f)) = filter P xs"
  using assms
proof (induction xs n f rule: grouper.induct)
  case (1 xs n f)
  show ?case
  proof (cases "xs = []")
    case True
    then show ?thesis by (subst grouper.simps) simp
  next
    case False
    have g: "grouper xs n f = (take n xs @ replicate (n - length xs) f) # grouper (drop n xs) n f"
      using False "1.prems"(1) by (subst grouper.simps) simp
    have ih: "concat (map (filter P) (grouper (drop n xs) n f)) = filter P (drop n xs)"
      using "1.IH" False "1.prems" by simp
    have "filter P (take n xs) @ filter P (drop n xs) = filter P xs"
      by (metis append_take_drop_id filter_append)
    then show ?thesis
      using "1.prems"(2) by (simp add: g ih)
  qed
qed

lemma grouper_length:
  assumes "0 < n"
  shows "length (grouper xs n f) = (length xs + n - 1) div n"
  using assms
proof (induction xs n f rule: grouper.induct)
  case (1 xs n f)
  show ?case
  proof (cases "xs = []")
    case True
    then show ?thesis using "1.prems" by (subst grouper.simps) simp
  next
    case False
    have g: "grouper xs n f = (take n xs @ replicate (n - length xs) f) # grouper (drop n xs) n f"
      using False "1.prems" by (subst grouper.simps) simp
    have ih: "length (grouper (drop n xs) n f) = (length (drop n xs) + n - 1) div n"
      using "1.IH" False "1.prems" by simp
    define m where "m = length xs"
    have pos: "1 \<le> m" using False by (cases xs) (simp_all add: m_def)
    have n: "0 < n" by (rule "1.prems")
    have "(m + n - 1) div n = Suc ((m - 1) div n)"
    proof -
      have "n \<le> m + n - 1" using pos by linarith
      then have "(m + n - 1) div n = Suc ((m + n - 1 - n) div n)"
        using n by (simp add: le_div_geq)
      moreover have "m + n - 1 - n = m - 1" using pos by linarith
      ultimately show ?thesis by simp
    qed
    moreover have "((m - n) + n - 1) div n = (m - 1) div n"
    proof (cases "n \<le> m")
      case True
      then have "(m - n) + n - 1 = m - 1" by linarith
      then show ?thesis by simp
    next
      case False
      then have "m - n = 0" "m - 1 < n" "n - 1 < n" using n by linarith+
      then show ?thesis by simp
    qed
    moreover have "length (drop n xs) = m - n" by (simp add: m_def)
    ultimately show ?thesis by (simp add: g ih m_def)
  qed
qed

lemma page_node_queries_distinct:
  assumes "list_all spo_bound rows"
  shows "distinct (concat (page_node_queries rows)) \<and>
         set (concat (page_node_queries rows)) =
           Some ` (\<Union>r \<in> set rows. {angle (the_value r ''subject''),
                                     angle (the_value r ''object'')})"
proof -
  from collect_result [OF assms, of "[]"] obtain nl where
    1: "efold collect_node rows [] = Inr nl" "distinct nl"
       "set nl = (\<Union>r \<in> set rows. {angle (the_value r ''subject''),
                                     angle (the_value r ''object'')})"
    by auto
  have ne: "\<forall>x \<in> set nl. x \<noteq> []"
    unfolding 1(3) by auto
  have "concat (page_node_queries rows) = filter truthy (map Some nl)"
    by (simp add: page_node_queries_def 1(1) grouper_concat_filter)
  also have "\<dots> = map Some nl"
    using ne by (induction nl) auto
  finally have "concat (page_node_queries rows) = map Some nl" .
  with 1(2,3) show ?thesis by (simp add: distinct_map)
qed

lemma page_calls_nodes:
  "page_calls ep a s off cs \<Longrightarrow> node_queries cs = page_node_queries (ep (Edge_query a off s))"
  by (auto simp: page_calls_def page_node_queries_def)

lemma pages_nodes:
  "list_all2 (page_calls ep a s) offs css \<Longrightarrow>
   node_queries (concat css) =
     concat (map (\<lambda>off. page_node_queries (ep (Edge_query a off s))) offs)"
  by (induction rule: list_all2_induct) (auto simp: page_calls_nodes)

lemma predicate_nodes:
  "predicate_calls ep limit c p cs \<Longrightarrow>
   node_queries cs = concat (map (\<lambda>(a, off, lim). page_node_queries (ep (Edge_query a off lim)))
                                (edge_windows cs))"
  by (auto simp: predicate_calls_def pages_windows pages_nodes comp_def)

lemma fetch_nodes:
  "list_all2 (\<lambda>p cs. predicate_calls ep limit (count p) p cs) ps pcs \<Longrightarrow>
   node_queries (concat pcs) =
     concat (map (\<lambda>(a, off, lim). page_node_queries (ep (Edge_query a off lim)))
                 (edge_windows (concat pcs)))"
  by (induction rule: list_all2_induct) (auto simp: predicate_nodes)

lemma run_nodes:
  assumes "rows_bound ep"
    and "\<forall>p \<in> set ps. triples_count (ep (Count_query (angle p))) = Inr (count p)"
  shows "node_queries (calls_of (red_load_networkx_graph f ep limit ps empty_transformer)) =
           concat (map (\<lambda>(a, off, lim). page_node_queries (ep (Edge_query a off lim)))
             (edge_windows (calls_of (red_load_networkx_graph f ep limit ps empty_transformer))))"
proof -
  from red_load_calls [OF assms, of f limit empty_transformer]
  obtain st' pcs where
    1: "red_load_networkx_graph f ep limit ps empty_transformer = Inr st'"
       "calls st' = calls empty_transformer @ concat pcs"
       "list_all2 (\<lambda>p cs. predicate_calls ep limit (count p) p cs) ps pcs"
    by auto
  from run_calls [OF 1(1,2)] fetch_nodes [OF 1(3)] show ?thesis by simp
qed

lemma grouper_short:
  assumes "xs \<noteq> []" and "length xs \<le> n"
  shows "grouper xs n f = [xs @ replicate (n - length xs) f]"
proof -
  from assms have n: "n \<noteq> 0" by (cases xs) auto
  have "grouper (drop n xs) n f = []"
    using assms(2) by (subst grouper.simps) simp
  then show ?thesis
    using assms n by (subst grouper.simps) simp
qed

lemma filter_truthy_pad [simp]: "filter truthy (xs @ replicate k None) = filter truthy xs"
  by (induction k) (simp_all add: replicate_app_Cons_same)

lemma py_int_2: "py_int ''2'' = Inr 2"
  by (simp add: py_int_def parse_nat_def digit_val_def)

lemma spo_bound_property_row [simp]: "spo_bound (property_row s p ob k v)"
  by (simp add: spo_bound_def property_row_def row_def)

lemma edge_args_row [simp]:
  "edge_args (row s p ob) = (s, tvalue ob, p)"
  "edge_args (property_row s p ob k v) = (s, tvalue ob, p)"
  by (simp_all add: edge_args_def the_value_def row_def property_row_def uri_def)

lemma rows_bound_repeated: "rows_bound (fixture n repeated_pages [])"
  by (rule rows_bound_fixture) (simp_all add: repeated_pages_def)

lemma rows_bound_shared: "rows_bound (fixture n shared_node_pages [])"
  by (rule rows_bound_fixture) (simp_all add: shared_node_pages_def)

lemma collect_row:
  "collect_node (row s p ob) nl = Inr (set_add (angle (tvalue ob)) (set_add (angle s) nl))"
  by (subst collect_node_ok) (simp_all add: the_value_def row_def uri_def spo_bound_def)

lemma page_node_queries_row:
  "page_node_queries [row s p (uri ob)] =
     [if angle s = angle ob then [Some (angle s)] else [Some (angle s), Some (angle ob)]]"
  by (simp add: page_node_queries_def collect_row uri_def set_add_def grouper_short)

lemma shared_node_queries:
  "concat (map (\<lambda>(a, off, lim). page_node_queries
       (fixture ''1001'' shared_node_pages [] (Edge_query a off lim)))
     [(''<p>'', 0, 1000), (''<p>'', 1000, 1000)]) =
   [[Some ''<s>'', Some ''<o1>''], [Some ''<s>'', Some ''<o2>'']]"
  by (simp add: shared_node_pages_def page_node_queries_row angle_def)

lemma efold_trace:
  assumes "\<And>x st. x \<in> set xs \<Longrightarrow> \<exists>st'. f x st = Inr st' \<and> calls st' = calls st @ g x"
  shows "\<exists>st'. efold f xs st = Inr st' \<and> calls st' = calls st @ concat (map g xs)"
  using assms
proof (induction xs arbitrary: st)
  case Nil
  then show ?case by simp
next
  case (Cons x xs)
  from Cons.prems [of x st] obtain st1 where
    1: "f x st = Inr st1" "calls st1 = calls st @ g x" by auto
  from Cons.IH [of st1] Cons.prems obtain st' where
    2: "efold f xs st1 = Inr st'" "calls st' = calls st1 @ concat (map g xs)"
    by (meson list.set_intros(2))
  show ?case by (rule exI [of _ st']) (simp add: 1 2)
qed

lemma load_chunk_trace:
  assumes "list_all spo_bound (ep (Node_properties_query (filter truthy nodes)))"
  shows "\<exists>st'. load_chunk ep nodes st = Inr st' \<and>
           calls st' = calls st @ Query (Node_properties_query (filter truthy nodes))
                                   # chunk_attributes ep (filter truthy nodes)"
proof -
  from efold_record_ok [OF assms] obtain d where
    d: "efold record_binding (ep (Node_properties_query (filter truthy nodes))) [] = Inr d"
    by blast
  show ?thesis
    by (simp add: load_chunk_def Let_def query_def d flush_calls chunk_attributes_def)
qed

lemma load_nodes_trace:
  assumes "rows_bound ep"
  shows "\<exists>st'. load_nodes ep node_set st = Inr st' \<and>
           calls st' = calls st @
             nodes_trace ep (map (filter truthy) (grouper (map Some node_set) 10000 None))"
proof -
  have "\<And>x st. \<exists>st'. load_chunk ep x st = Inr st' \<and>
          calls st' = calls st @ Query (Node_properties_query (filter truthy x))
                                   # chunk_attributes ep (filter truthy x)"
    using assms by (intro load_chunk_trace) (simp add: rows_bound_def)
  from efold_trace [of "grouper (map Some node_set) 10000 None" "load_chunk ep"
      "\<lambda>x. Query (Node_properties_query (filter truthy x)) # chunk_attributes ep (filter truthy x)"
      st, OF this]
  show ?thesis
    by (simp add: load_nodes_def nodes_trace_def comp_def)
qed

lemma efold_load_edge_trace:
  "list_all spo_bound rs \<Longrightarrow>
   \<exists>st'. efold load_edge rs st = Inr st' \<and> calls st' = calls st @ map row_edge rs"
proof -
  assume a: "list_all spo_bound rs"
  have "\<And>x st. x \<in> set rs \<Longrightarrow> \<exists>st'. load_edge x st = Inr st' \<and> calls st' = calls st @ [row_edge x]"
    using a load_edge_ok by (auto simp: list_all_iff row_edge_def)
  from efold_trace [of rs load_edge "\<lambda>x. [row_edge x]" st, OF this]
  show ?thesis by simp
qed

lemma load_page_trace:
  assumes "rows_bound ep"
  shows "\<exists>st'. load_page ep a step start st = Inr st' \<and>
           calls st' = calls st @ page_trace ep a step start"
proof -
  let ?rs = "ep (Edge_query a start step)"
  let ?st1 = "st\<lparr>calls := calls st @ [Query (Edge_query a start step)]\<rparr>"
  have rs: "list_all spo_bound ?rs"
    using assms by (simp add: rows_bound_def)
  from efold_collect_ok [OF rs] obtain nl where
    nl: "efold collect_node ?rs [] = Inr nl" by blast
  from load_nodes_trace [OF assms, of nl ?st1] obtain st2 where
    2: "load_nodes ep nl ?st1 = Inr st2"
       "calls st2 = calls ?st1 @
          nodes_trace ep (map (filter truthy) (grouper (map Some nl) 10000 None))"
    by blast
  from efold_load_edge_trace [OF rs, of st2] obtain st3 where
    3: "efold load_edge ?rs st2 = Inr st3" "calls st3 = calls st2 @ map row_edge ?rs"
    by blast
  show ?thesis
    by (rule exI [of _ st3])
       (simp add: load_page_def query_def nl 2 3 page_trace_def page_node_queries_def)
qed

lemma page_loop_trace:
  assumes "rows_bound ep"
  shows "\<exists>st'. page_loop ep limit a s (py_range i b s) (i - s) st = Inr st' \<and>
           calls st' = calls st @
             concat (map (page_trace ep a s)
                         (map (\<lambda>i. i - s) (until_limit limit (py_range i b s))))"
proof (induction i b s arbitrary: st rule: py_range.induct)
  case (1 i b s)
  show ?case
  proof (cases "0 < s \<and> i < b")
    case False
    then have "py_range i b s = []" by (subst py_range.simps) simp
    then show ?thesis by simp
  next
    case True
    then have r: "py_range i b s = i # py_range (i + s) b s" by (subst py_range.simps) simp
    from load_page_trace [OF assms, of a s "i - s" st] obtain st1 where
      p: "load_page ep a s (i - s) st = Inr st1"
         "calls st1 = calls st @ page_trace ep a s (i - s)" by blast
    show ?thesis
    proof (cases "case limit of None \<Rightarrow> False | Some l \<Rightarrow> i > l")
      case True
      then show ?thesis
        by (subst (1 2) r) (simp add: p)
    next
      case False
      from "1.IH" [OF \<open>0 < s \<and> i < b\<close>, of st1] obtain st' where
        h: "page_loop ep limit a s (py_range (i + s) b s) (i + s - s) st1 = Inr st'"
           "calls st' = calls st1 @
              concat (map (page_trace ep a s)
                          (map (\<lambda>i. i - s) (until_limit limit (py_range (i + s) b s))))"
        by blast
      from h(1) have h1: "page_loop ep limit a s (py_range (i + s) b s) i st1 = Inr st'" by simp
      show ?thesis
        using False by (subst (1 2) r) (simp add: p h1 h(2))
    qed
  qed
qed

lemma red_load_predicate_trace:
  assumes "rows_bound ep" and "triples_count (ep (Count_query (angle p))) = Inr count"
  shows "\<exists>st'. red_load_predicate ep limit p st = Inr st' \<and>
           calls st' = calls st @ predicate_trace ep limit count p"
proof -
  let ?st1 = "st\<lparr>calls := calls st @ [Query (Count_query (angle p))]\<rparr>"
  from page_loop_trace [OF assms(1), of limit "angle p" 1000 1000 "count + 1000" ?st1]
  obtain st' where
    1: "page_loop ep limit (angle p) 1000 (py_range 1000 (count + 1000) 1000) 0 ?st1 = Inr st'"
       "calls st' = calls ?st1 @ concat (map (page_trace ep (angle p) 1000)
                                             (page_offsets limit count))"
    by (auto simp: page_offsets_def)
  show ?thesis
    by (rule exI [of _ st'])
       (use 1 in \<open>simp add: red_load_predicate_def query_def assms(2) Let_def predicate_trace_def\<close>)
qed

lemma red_load_trace:
  assumes "rows_bound ep"
    and "\<forall>p \<in> set ps. triples_count (ep (Count_query (angle p))) = Inr (count p)"
  shows "\<exists>st1. efold (red_load_predicate ep limit) ps st = Inr st1 \<and>
           red_load_networkx_graph f ep limit ps st = Inr (categorize f st1) \<and>
           calls st1 = calls st @ fetch_trace ep limit count ps"
proof -
  have "\<And>p st. p \<in> set ps \<Longrightarrow> \<exists>st'. red_load_predicate ep limit p st = Inr st' \<and>
          calls st' = calls st @ predicate_trace ep limit (count p) p"
    using assms by (intro red_load_predicate_trace) auto
  from efold_trace [of ps "red_load_predicate ep limit"
      "\<lambda>p. predicate_trace ep limit (count p) p" st, OF this]
  obtain st1 where
    1: "efold (red_load_predicate ep limit) ps st = Inr st1"
       "calls st1 = calls st @ fetch_trace ep limit count ps"
    by (auto simp: fetch_trace_def)
  show ?thesis
    by (rule exI [of _ st1]) (simp add: red_load_networkx_graph_def 1)
qed

lemma graph_follows_refl [simp]: "graph_follows st st"
  by (simp add: graph_follows_def)

lemma graph_follows_trans:
  "graph_follows st st1 \<Longrightarrow> graph_follows st1 st2 \<Longrightarrow> graph_follows st st2"
  unfolding graph_follows_def
proof (elim exE conjE)
  fix cs1 cs2
  assume "calls st1 = calls st @ cs1" "graph st1 = fold apply_call cs1 (graph st)"
    "calls st2 = calls st1 @ cs2" "graph st2 = fold apply_call cs2 (graph st1)"
  then show "\<exists>cs. calls st2 = calls st @ cs \<and> graph st2 = fold apply_call cs (graph st)"
    by (intro exI [of _ "cs1 @ cs2"]) simp
qed

lemma follows_add_edge [simp]: "graph_follows st (add_edge s ob p st)"
  unfolding graph_follows_def
  by (rule exI [of _ "[Add_edge s ob p]"]) (simp add: add_edge_def)

lemma follows_add_node_attribute [simp]: "graph_follows st (add_node_attribute n k v st)"
  unfolding graph_follows_def
  by (rule exI [of _ "[Add_node_attribute n k v]"]) (simp add: add_node_attribute_def)

lemma follows_query [simp]: "graph_follows st (st\<lparr>calls := calls st @ [Query q]\<rparr>)"
  unfolding graph_follows_def
  by (rule exI [of _ "[Query q]"]) simp

lemma follows_fold_attr:
  "graph_follows st (fold (\<lambda>(key, val) st2. add_node_attribute node key val st2) attr_dict st)"
proof (induction attr_dict arbitrary: st)
  case Nil
  show ?case by simp
next
  case (Cons kv attr_dict)
  obtain k v where kv: "kv = (k, v)" by (cases kv)
  show ?case
    using graph_follows_trans [OF follows_add_node_attribute Cons.IH] by (simp add: kv)
qed

lemma follows_flush: "graph_follows st (flush d st)"
  unfolding flush_def
proof (induction d arbitrary: st)
  case Nil
  show ?case by simp
next
  case (Cons na d)
  obtain n a where na: "na = (n, a)" by (cases na)
  show ?case
    using graph_follows_trans [OF follows_fold_attr Cons.IH] by (simp add: na)
qed

lemma efold_follows:
  assumes "\<And>x st st'. f x st = Inr st' \<Longrightarrow> graph_follows st st'"
    and "efold f xs st = Inr st'"
  shows "graph_follows st st'"
  using assms(2)
proof (induction xs arbitrary: st)
  case Nil
  then show ?case by simp
next
  case (Cons x xs)
  from Cons.prems obtain st1 where 1: "f x st = Inr st1" "efold f xs st1 = Inr st'"
    by (auto simp: ebind_Inr_iff)
  from graph_follows_trans [OF assms(1) [OF 1(1)] Cons.IH [OF 1(2)]] show ?case .
qed

lemma follows_load_chunk:
  assumes "load_chunk ep nodes st = Inr st'"
  shows "graph_follows st st'"
proof -
  from assms obtain d where
    "st' = flush d (st\<lparr>calls := calls st @ [Query (Node_properties_query (filter truthy nodes))]\<rparr>)"
    by (auto simp: load_chunk_def Let_def query_def ebind_Inr_iff split: if_splits)
  then show ?thesis
    using graph_follows_trans [OF follows_query follows_flush] by simp
qed

lemma follows_load_nodes:
  "load_nodes ep node_set st = Inr st' \<Longrightarrow> graph_follows st st'"
  unfolding load_nodes_def by (rule efold_follows [OF follows_load_chunk])

lemma follows_load_edge:
  "load_edge r st = Inr st' \<Longrightarrow> graph_follows st st'"
  by (auto simp: load_edge_def ebind_Inr_iff)

lemma follows_load_page:
  assumes "load_page ep a step start st = Inr st'"
  shows "graph_follows st st'"
proof -
  let ?st1 = "st\<lparr>calls := calls st @ [Query (Edge_query a start step)]\<rparr>"
  from assms obtain nl st2 where
    1: "load_nodes ep nl ?st1 = Inr st2"
       "efold load_edge (ep (Edge_query a start step)) st2 = Inr st'"
    by (auto simp: load_page_def query_def ebind_Inr_iff)
  from graph_follows_trans [OF follows_query
      graph_follows_trans [OF follows_load_nodes [OF 1(1)]
        efold_follows [OF follows_load_edge 1(2)]]]
  show ?thesis .
qed

lemma follows_page_loop:
  "page_loop ep limit a step is start st = Inr st' \<Longrightarrow> graph_follows st st'"
proof (induction "is" arbitrary: start st)
  case Nil
  then show ?case by simp
next
  case (Cons i rest)
  from Cons.prems obtain st1 where
    1: "load_page ep a step start st = Inr st1"
       "(if (case limit of None \<Rightarrow> False | Some l \<Rightarrow> i > l) then Inr st1
         else page_loop ep limit a step rest i st1) = Inr st'"
    by (auto simp: ebind_Inr_iff)
  show ?case
  proof (cases "case limit of None \<Rightarrow> False | Some l \<Rightarrow> i > l")
    case True
    with 1 have "st' = st1" by simp
    with follows_load_page [OF 1(1)] show ?thesis by simp
  next
    case False
    with 1 have "page_loop ep limit a step rest i st1 = Inr st'" by simp
    from graph_follows_trans [OF follows_load_page [OF 1(1)] Cons.IH [OF this]]
    show ?thesis .
  qed
qed

lemma follows_red_load_predicate:
  assumes "red_load_predicate ep limit p st = Inr st'"
  shows "graph_follows st st'"
proof -
  from assms obtain count where
    "page_loop ep limit (angle p) 1000 (py_range 1000 (count + 1000) 1000) 0
       (st\<lparr>calls := calls st @ [Query (Count_query (angle p))]\<rparr>) = Inr st'"
    by (auto simp: red_load_predicate_def query_def Let_def ebind_Inr_iff)
  from graph_follows_trans [OF follows_query follows_page_loop [OF this]]
  show ?thesis .
qed

lemma follows_predicates:
  "efold (red_load_predicate ep limit) ps st = Inr st' \<Longrightarrow> graph_follows st st'"
  by (rule efold_follows [OF follows_red_load_predicate])

lemma graph_of_calls:
  assumes "graph_follows st st'" and "calls st' = calls st @ cs"
  shows "graph st' = fold apply_call cs (graph st)"
  using assms by (auto simp: graph_follows_def)

lemma update_absent: "k \<notin> fst ` set al \<Longrightarrow> AList.update k v al = al @ [(k, v)]"
  by (induction al) auto

lemma categorize_data_explicit: "categorize_data f data = with_category f data"
proof (cases "map_of data ''type''")
  case None
  then have "''type'' \<notin> fst ` set data" by (simp add: map_of_eq_None_iff)
  with None show ?thesis by (simp add: categorize_data_def with_category_def)
next
  case (Some ty)
  then have t: "''type'' \<in> fst ` set data"
    by (metis map_of_eq_None_iff option.distinct(1))
  show ?thesis
  proof (cases "map_of data ''category'' = None")
    case True
    then have "''category'' \<notin> fst ` set data" by (simp add: map_of_eq_None_iff)
    with True Some t show ?thesis
      by (simp add: categorize_data_def with_category_def update_absent)
  next
    case False
    then have "''category'' \<in> fst ` set data" by (simp add: map_of_eq_None_iff)
    with False Some show ?thesis
      by (auto simp: categorize_data_def with_category_def)
  qed
qed

lemma graph_categorize:
  "g_nodes (graph (categorize f st)) = map (\<lambda>(n, data). (n, with_category f data)) (g_nodes (graph st))"
  "g_edges (graph (categorize f st)) = g_edges (graph st)"
  by (simp_all add: categorize_def categorize_data_explicit)

lemma red_load_graph:
  assumes "rows_bound ep"
    and "\<forall>p \<in> set ps. triples_count (ep (Count_query (angle p))) = Inr (count p)"
  shows "\<exists>st'. red_load_networkx_graph f ep limit ps st = Inr st' \<and>
           calls st' = calls st @ fetch_trace ep limit count ps \<and>
           g_nodes (graph st') =
             map (\<lambda>(n, data). (n, with_category f data))
                 (g_nodes (fold apply_call (fetch_trace ep limit count ps) (graph st))) \<and>
           g_edges (graph st') =
             g_edges (fold apply_call (fetch_trace ep limit count ps) (graph st))"
proof -
  from red_load_trace [OF assms, of limit st f] obtain st1 where
    1: "efold (red_load_predicate ep limit) ps st = Inr st1"
       "red_load_networkx_graph f ep limit ps st = Inr (categorize f st1)"
       "calls st1 = calls st @ fetch_trace ep limit count ps"
    by blast
  from graph_of_calls [OF follows_predicates [OF 1(1)] 1(3)]
  have g: "graph st1 = fold apply_call (fetch_trace ep limit count ps) (graph st)" .
  show ?thesis
    by (rule exI [of _ "categorize f st1"]) (simp add: 1 graph_categorize g)
qed

lemma chunk_attributes_proj [simp]:
  "edge_windows (chunk_attributes ep vs) = []"
  "edge_calls (chunk_attributes ep vs) = []"
  "node_queries (chunk_attributes ep vs) = []"
  by (simp_all add: chunk_attributes_def split: sum.splits)

lemma nodes_trace_proj [simp]:
  "edge_windows (nodes_trace ep vss) = []"
  "edge_calls (nodes_trace ep vss) = []"
  "node_queries (nodes_trace ep vss) = vss"
  by (induction vss) (simp_all add: nodes_trace_def)

lemma row_edges_proj [simp]:
  "edge_windows (map row_edge rows) = []"
  "edge_calls (map row_edge rows) = map edge_args rows"
  "node_queries (map row_edge rows) = []"
  by (induction rows) (simp_all add: row_edge_def edge_args_def)

lemma page_trace_proj [simp]:
  "edge_windows (page_trace ep a s off) = [(a, off, s)]"
  "edge_calls (page_trace ep a s off) = map edge_args (ep (Edge_query a off s))"
  "node_queries (page_trace ep a s off) = page_node_queries (ep (Edge_query a off s))"
  by (simp_all add: page_trace_def)

lemma pages_trace_proj:
  "edge_windows (concat (map (page_trace ep a s) offs)) = map (\<lambda>off. (a, off, s)) offs"
  "edge_calls (concat (map (page_trace ep a s) offs)) =
     concat (map (\<lambda>off. map edge_args (ep (Edge_query a off s))) offs)"
  "node_queries (concat (map (page_trace ep a s) offs)) =
     concat (map (\<lambda>off. page_node_queries (ep (Edge_query a off s))) offs)"
  by (induction offs) simp_all

lemma predicate_trace_proj:
  "edge_windows (predicate_trace ep limit c p) =
     map (\<lambda>off. (angle p, off, 1000)) (page_offsets limit c)"
  "edge_calls (predicate_trace ep limit c p) =
     concat (map (\<lambda>off. map edge_args (ep (Edge_query (angle p) off 1000))) (page_offsets limit c))"
  "node_queries (predicate_trace ep limit c p) =
     concat (map (\<lambda>off. page_node_queries (ep (Edge_query (angle p) off 1000)))
                 (page_offsets limit c))"
  by (simp_all add: predicate_trace_def pages_trace_proj)

lemma fetch_trace_proj:
  "edge_windows (fetch_trace ep limit count ps) =
     concat (map (\<lambda>p. map (\<lambda>off. (angle p, off, 1000)) (page_offsets limit (count p))) ps)"
  "edge_calls (fetch_trace ep limit count ps) =
     concat (map (\<lambda>p. concat (map (\<lambda>off. map edge_args (ep (Edge_query (angle p) off 1000)))
                                   (page_offsets limit (count p)))) ps)"
  "node_queries (fetch_trace ep limit count ps) =
     concat (map (\<lambda>p. concat (map (\<lambda>off. page_node_queries (ep (Edge_query (angle p) off 1000)))
                                   (page_offsets limit (count p)))) ps)"
  by (induction ps) (simp_all add: fetch_trace_def predicate_trace_proj)

lemma grouper_Nil [simp]: "grouper [] n f = []"
  by (subst grouper.simps) simp

lemma page_node_queries_Nil [simp]: "page_node_queries [] = []"
  by (simp add: page_node_queries_def)

lemma page_node_queries_uneven:
  "page_node_queries (uneven_pages 0) =
     [[Some ''<s1>'', Some ''<o1>'', Some ''<s2>'', Some ''<o2>'']]"
  "page_node_queries (uneven_pages 1000) = [[Some ''<s3>'', Some ''<o3>'']]"
  "page_node_queries (uneven_pages 2000) = []"
  by (simp_all add: uneven_pages_def page_node_queries_def collect_row uri_def set_add_def
        angle_def grouper_short)

lemma rows_bound_typed: "rows_bound (fixture n typed_pages typed_rows)"
  by (rule rows_bound_fixture) (simp_all add: typed_pages_def typed_rows_def)

lemma record_typed_rows:
  "efold record_binding typed_rows [] = Inr [(''s1'', [(''type'', ''biolink:GeneProduct'')])]"
  by (simp add: typed_rows_def record_binding_def lookup_def row_def literal_def uri_def
        startswith_def Let_def)

lemma typed_page_trace:
  "page_trace (fixture n typed_pages typed_rows) a 1000 0 =
     [Query (Edge_query a 0 1000),
      Query (Node_properties_query [Some ''<s1>'', Some ''<o1>'']),
      Add_node_attribute ''s1'' ''type'' ''biolink:GeneProduct'',
      Add_edge ''s1'' ''o1'' ''p'']"
proof -
  have q: "page_node_queries (typed_pages 0) = [[Some ''<s1>'', Some ''<o1>'']]"
    by (simp add: typed_pages_def page_node_queries_row angle_def)
  have e: "map row_edge (typed_pages 0) = [Add_edge ''s1'' ''o1'' ''p'']"
    by (simp add: typed_pages_def row_edge_def the_value_def row_def uri_def)
  have a: "chunk_attributes (fixture n typed_pages typed_rows) vs =
             [Add_node_attribute ''s1'' ''type'' ''biolink:GeneProduct'']" for vs
    by (simp add: chunk_attributes_def record_typed_rows flush_calls_def)
  show ?thesis
    by (simp add: page_trace_def q e nodes_trace_def a)
qed

lemma typed_fetch_trace:
  "fetch_trace (fixture n typed_pages typed_rows) (Some 500) (\<lambda>p. 5000) [''p1'', ''p2''] =
     [Query (Count_query ''<p1>''),
      Query (Edge_query ''<p1>'' 0 1000),
      Query (Node_properties_query [Some ''<s1>'', Some ''<o1>'']),
      Add_node_attribute ''s1'' ''type'' ''biolink:GeneProduct'',
      Add_edge ''s1'' ''o1'' ''p'',
      Query (Count_query ''<p2>''),
      Query (Edge_query ''<p2>'' 0 1000),
      Query (Node_properties_query [Some ''<s1>'', Some ''<o1>'']),
      Add_node_attribute ''s1'' ''type'' ''biolink:GeneProduct'',
      Add_edge ''s1'' ''o1'' ''p'']"
proof -
  have o: "page_offsets (Some 500) 5000 = [0]"
    by (simp add: page_offsets_def py_range.simps)
  show ?thesis
    by (simp add: fetch_trace_def predicate_trace_def o typed_page_trace) (simp add: angle_def)
qed

lemma typed_fetch_graph:
  "fold apply_call
     [Query (Count_query ''<p1>''),
      Query (Edge_query ''<p1>'' 0 1000),
      Query (Node_properties_query [Some ''<s1>'', Some ''<o1>'']),
      Add_node_attribute ''s1'' ''type'' ''biolink:GeneProduct'',
      Add_edge ''s1'' ''o1'' ''p'',
      Query (Count_query ''<p2>''),
      Query (Edge_query ''<p2>'' 0 1000),
      Query (Node_properties_query [Some ''<s1>'', Some ''<o1>'']),
      Add_node_attribute ''s1'' ''type'' ''biolink:GeneProduct'',
      Add_edge ''s1'' ''o1'' ''p'']
     (graph empty_transformer) =
   \<lparr>g_nodes = [(''s1'', [(''type'', ''biolink:GeneProduct'')]), (''o1'', [])],
    g_edges = [(''s1'', ''o1'', ''p'')]\<rparr>"
  by (simp add: empty_transformer_def G_add_node_attribute_def G_add_edge_def G_add_node_def
        Let_def)

lemma typed_category:
  "with_category un_camel_case [(''type'', ''biolink:GeneProduct'')] =
     [(''type'', ''biolink:GeneProduct''), (''category'', ''gene product'')]"
  "with_category un_camel_case [] = []"
proof -
  have r: "str_replace ''biolink:'' [] ''biolink:GeneProduct'' = ''GeneProduct''"
    by code_simp
  have u: "un_camel_case ''GeneProduct'' = ''gene product''"
    by code_simp
  show "with_category un_camel_case [(''type'', ''biolink:GeneProduct'')] =
     [(''type'', ''biolink:GeneProduct''), (''category'', ''gene product'')]"
    by (simp add: with_category_def r u)
  show "with_category un_camel_case [] = []"
    by (simp add: with_category_def)
qed

lemma windows_of_trace:
  "concat (map (\<lambda>(a, off, lim). map edge_args (ep (Edge_query a off lim)))
           (edge_windows (fetch_trace ep limit count ps))) =
   edge_calls (fetch_trace ep limit count ps)"
  unfolding fetch_trace_proj
  by (induction ps) (simp_all add: map_concat comp_def)

lemma node_queries_of_trace:
  "concat (map (\<lambda>(a, off, lim). page_node_queries (ep (Edge_query a off lim)))
           (edge_windows (fetch_trace ep limit count ps))) =
   node_queries (fetch_trace ep limit count ps)"
  unfolding fetch_trace_proj
  by (induction ps) (simp_all add: map_concat comp_def)

lemma load_triple_trace:
  assumes "spo_bound r"
  shows "\<exists>st'. load_triple r st = Inr st' \<and> calls st' = calls st @ [routed r]"
proof -
  from assms obtain s p ob where
    b: "r ''subject'' = Some s" "r ''predicate'' = Some p" "r ''object'' = Some ob"
    by (auto simp: spo_bound_def)
  then show ?thesis
    by (simp add: load_triple_def lookup_def routed_def is_literal_def the_value_def
        add_node_attribute_def add_edge_def)
qed

lemma follows_load_triple:
  "load_triple r st = Inr st' \<Longrightarrow> graph_follows st st'"
  by (auto simp: load_triple_def ebind_Inr_iff split: if_splits)

lemma load_predicate_trace:
  assumes "rows_bound ep"
  shows "\<exists>st'. load_predicate ep p st = Inr st' \<and>
           calls st' = calls st @ Query (Generic_edge_query (angle p))
                         # map routed (ep (Generic_edge_query (angle p)))"
proof -
  let ?q = "Generic_edge_query (angle p)"
  let ?st1 = "st\<lparr>calls := calls st @ [Query ?q]\<rparr>"
  have "list_all spo_bound (ep ?q)"
    using assms by (simp add: rows_bound_def)
  then have "\<And>x st. x \<in> set (ep ?q) \<Longrightarrow>
      \<exists>st'. load_triple x st = Inr st' \<and> calls st' = calls st @ (\<lambda>r. [routed r]) x"
    by (simp add: list_all_iff load_triple_trace)
  from efold_trace [of "ep ?q" load_triple "\<lambda>r. [routed r]" ?st1, OF this]
  obtain st' where "efold load_triple (ep ?q) ?st1 = Inr st'"
    "calls st' = calls ?st1 @ concat (map (\<lambda>r. [routed r]) (ep ?q))"
    by blast
  moreover have "concat (map (\<lambda>r. [routed r]) rs) = map routed rs" for rs
    by (induction rs) simp_all
  ultimately show ?thesis
    by (simp add: load_predicate_def query_def)
qed

lemma follows_load_predicate:
  assumes "load_predicate ep p st = Inr st'"
  shows "graph_follows st st'"
proof -
  let ?q = "Generic_edge_query (angle p)"
  let ?st1 = "st\<lparr>calls := calls st @ [Query ?q]\<rparr>"
  from assms have "efold load_triple (ep ?q) ?st1 = Inr st'"
    by (simp add: load_predicate_def query_def Let_def)
  from efold_follows [OF follows_load_triple this] follows_query [of st ?q]
  show ?thesis by (rule graph_follows_trans [rotated])
qed

lemma follows_generic:
  "load_networkx_graph ep ps st = Inr st' \<Longrightarrow> graph_follows st st'"
  unfolding load_networkx_graph_def by (rule efold_follows [OF follows_load_predicate])

lemma mutations_routed [simp]: "mutations (map routed rs) = map routed rs"
  by (induction rs) (simp_all add: mutations_def routed_def)

lemma mutations_generic:
  "mutations (concat (map (\<lambda>p. Query (Generic_edge_query (angle p))
                             # map routed (ep (Generic_edge_query (angle p)))) ps)) =
   concat (map (\<lambda>p. map routed (ep (Generic_edge_query (angle p)))) ps)"
proof (induction ps)
  case Nil
  show ?case by (simp add: mutations_def)
next
  case (Cons p ps)
  have "mutations (x # xs @ ys) = mutation_of x @ mutations xs @ mutations ys" for x xs ys
    by (simp add: mutations_def)
  with Cons show ?case by (simp add: mutations_def [of "[]"])
qed

lemma rows_bound_literal: "rows_bound (fixture n literal_pages [])"
  by (rule rows_bound_fixture) (simp_all add: literal_pages_def)

section \<open>The pagination driver\<close>

text \<open>
  Claim C1. \<^verbatim>\<open>RedSparqlTransformer.load_networkx_graph\<close>, step 1000, on one predicate. When
  the count query reports 2500 (and the caller gave no limit, or one of at least 2000, so
  that the limit does not cut the fetch short), exactly three edge queries are sent, with
  the offsets 0, 1000 and 2000 and the limit 1000, whatever rows the endpoint returns for
  them. When the count query reports 0, no edge query is sent.
\<close>

theorem pagination_windows:
  assumes "rows_bound ep"
  shows "(triples_count (ep (Count_query (angle predicate))) = Inr 2500 \<and>
          (case limit of None \<Rightarrow> True | Some l \<Rightarrow> 2000 \<le> l) \<longrightarrow>
            (\<exists>st' cs. red_load_networkx_graph f ep limit [predicate] st = Inr st' \<and>
               calls st' = calls st @ cs \<and>
               edge_windows cs = [(angle predicate, 0, 1000), (angle predicate, 1000, 1000),
                                  (angle predicate, 2000, 1000)])) \<and>
         (triples_count (ep (Count_query (angle predicate))) = Inr 0 \<longrightarrow>
            (\<exists>st' cs. red_load_networkx_graph f ep limit [predicate] st = Inr st' \<and>
               calls st' = calls st @ cs \<and> edge_windows cs = []))"
proof (intro conjI impI)
  assume a: "triples_count (ep (Count_query (angle predicate))) = Inr 2500 \<and>
          (case limit of None \<Rightarrow> True | Some l \<Rightarrow> 2000 \<le> l)"
  then have o: "page_offsets limit 2500 = [0, 1000, 2000]"
    by (cases limit) (simp_all add: page_offsets_def py_range.simps)
  from a red_load_calls [OF assms, of "[predicate]" "\<lambda>p. 2500" f limit st]
  obtain st' pcs where
    1: "red_load_networkx_graph f ep limit [predicate] st = Inr st'"
       "calls st' = calls st @ concat pcs"
       "list_all2 (\<lambda>p cs. predicate_calls ep limit 2500 p cs) [predicate] pcs"
    by auto
  from fetch_windows [OF 1(3)] o 1(1,2)
  show "\<exists>st' cs. red_load_networkx_graph f ep limit [predicate] st = Inr st' \<and>
               calls st' = calls st @ cs \<and>
               edge_windows cs = [(angle predicate, 0, 1000), (angle predicate, 1000, 1000),
                                  (angle predicate, 2000, 1000)]"
    by auto
next
  assume a: "triples_count (ep (Count_query (angle predicate))) = Inr 0"
  have o: "page_offsets limit 0 = []"
    by (simp add: page_offsets_def py_range.simps)
  from a red_load_calls [OF assms, of "[predicate]" "\<lambda>p. 0" f limit st]
  obtain st' pcs where
    1: "red_load_networkx_graph f ep limit [predicate] st = Inr st'"
       "calls st' = calls st @ concat pcs"
       "list_all2 (\<lambda>p cs. predicate_calls ep limit 0 p cs) [predicate] pcs"
    by auto
  from fetch_windows [OF 1(3)] o 1(1,2)
  show "\<exists>st' cs. red_load_networkx_graph f ep limit [predicate] st = Inr st' \<and>
               calls st' = calls st @ cs \<and> edge_windows cs = []"
    by auto
qed

text \<open>
  An endpoint that reports 2500 and answers the pages with two rows, one row and no row:
  three windows. An endpoint that reports 0: none.
\<close>

theorem pagination_windows_witness:
  "rows_bound (fixture ''2500'' uneven_pages []) \<and>
   triples_count (fixture ''2500'' uneven_pages [] (Count_query (angle ''p''))) = Inr 2500 \<and>
   (\<exists>st' cs. red_load_networkx_graph un_camel_case (fixture ''2500'' uneven_pages []) None [''p'']
                empty_transformer = Inr st' \<and>
      calls st' = calls empty_transformer @ cs \<and>
      edge_windows cs = [(angle ''p'', 0, 1000), (angle ''p'', 1000, 1000), (angle ''p'', 2000, 1000)]) \<and>
   rows_bound (fixture ''0'' no_pages []) \<and>
   triples_count (fixture ''0'' no_pages [] (Count_query (angle ''p''))) = Inr 0 \<and>
   (\<exists>st' cs. red_load_networkx_graph un_camel_case (fixture ''0'' no_pages []) None [''p'']
                empty_transformer = Inr st' \<and>
      calls st' = calls empty_transformer @ cs \<and> edge_windows cs = [])"
proof -
  have r: "rows_bound (fixture ''2500'' uneven_pages [])"
    by (rule rows_bound_fixture) (simp_all add: uneven_pages_def)
  have c: "triples_count (fixture ''2500'' uneven_pages [] (Count_query (angle ''p''))) = Inr 2500"
    by (rule triples_count_fixture) (rule py_int_examples)
  have r0: "rows_bound (fixture ''0'' no_pages [])"
    by (rule rows_bound_fixture) (simp_all add: no_pages_def)
  have c0: "triples_count (fixture ''0'' no_pages [] (Count_query (angle ''p''))) = Inr 0"
    by (rule triples_count_fixture) (rule py_int_examples)
  from pagination_windows [OF r, of "''p''" None un_camel_case empty_transformer]
    pagination_windows [OF r0, of "''p''" None un_camel_case empty_transformer] r c r0 c0
  show ?thesis by simp
qed

text \<open>
  Claim C4, as amended. Without a limit, the loop over \<^verbatim>\<open>range(step, count + step, step)\<close>
  fetches the window at \<^verbatim>\<open>start\<close>, processes every row of the answer and then advances
  \<^verbatim>\<open>start\<close> by the step, as long as \<^verbatim>\<open>start\<close> is below the count: a page is fetched at the
  offset \<open>off\<close> exactly when \<open>off\<close> is a multiple of 1000 with \<open>0 \<le> off < count\<close>, and no
  page is fetched at an offset equal to the count. The calls of the fetch are the count
  query and then, page after page, the calls of \<^const>\<open>page_trace\<close>: the edge query, the
  node-attribute queries for the nodes of the rows with the attributes they bring, and one
  \<^verbatim>\<open>add_edge\<close> for every row that came back.
\<close>

theorem pages_until_count:
  assumes "rows_bound ep"
    and "triples_count (ep (Count_query (angle predicate))) = Inr count"
  shows "\<exists>st' cs. red_load_networkx_graph f ep None [predicate] st = Inr st' \<and>
           calls st' = calls st @ cs \<and>
           edge_windows cs = map (\<lambda>off. (angle predicate, off, 1000)) (py_range 0 count 1000) \<and>
           (\<forall>off. (angle predicate, off, 1000) \<in> set (edge_windows cs) \<longleftrightarrow>
                    0 \<le> off \<and> off < count \<and> 1000 dvd off) \<and>
           cs = Query (Count_query (angle predicate))
                  # concat (map (page_trace ep (angle predicate) 1000) (py_range 0 count 1000)) \<and>
           edge_calls cs =
             concat (map (\<lambda>off. map edge_args (ep (Edge_query (angle predicate) off 1000)))
                         (py_range 0 count 1000)) \<and>
           node_queries cs =
             concat (map (\<lambda>off. page_node_queries (ep (Edge_query (angle predicate) off 1000)))
                         (py_range 0 count 1000))"
proof -
  let ?cs = "fetch_trace ep None (\<lambda>p. count) [predicate]"
  from red_load_graph [OF assms(1), of "[predicate]" "\<lambda>p. count" f None st] assms(2)
  obtain st' where
    1: "red_load_networkx_graph f ep None [predicate] st = Inr st'"
       "calls st' = calls st @ ?cs"
    by auto
  have t: "?cs = Query (Count_query (angle predicate))
                  # concat (map (page_trace ep (angle predicate) 1000) (py_range 0 count 1000))"
    by (simp add: fetch_trace_def predicate_trace_def page_offsets_None)
  have w: "edge_windows ?cs = map (\<lambda>off. (angle predicate, off, 1000)) (py_range 0 count 1000)"
    by (simp add: fetch_trace_proj page_offsets_None)
  have m: "\<forall>off. (angle predicate, off, 1000) \<in> set (edge_windows ?cs) \<longleftrightarrow>
                    0 \<le> off \<and> off < count \<and> 1000 dvd off"
    unfolding w by (auto simp: set_py_range)
  have e: "edge_calls ?cs =
             concat (map (\<lambda>off. map edge_args (ep (Edge_query (angle predicate) off 1000)))
                         (py_range 0 count 1000))"
    by (simp add: fetch_trace_proj page_offsets_None)
  have n: "node_queries ?cs =
             concat (map (\<lambda>off. page_node_queries (ep (Edge_query (angle predicate) off 1000)))
                         (py_range 0 count 1000))"
    by (simp add: fetch_trace_proj page_offsets_None)
  from 1 t w m e n show ?thesis by blast
qed

text \<open>
  With the count 2500 and pages of two rows, one row and no row: three windows, one
  \<^verbatim>\<open>add_edge\<close> for each of the three rows, and the node-attribute queries of the two
  pages that have rows.
\<close>

theorem pages_until_count_witness:
  "rows_bound (fixture ''2500'' uneven_pages []) \<and>
   triples_count (fixture ''2500'' uneven_pages [] (Count_query (angle ''p''))) = Inr 2500 \<and>
   (\<exists>st' cs. red_load_networkx_graph un_camel_case (fixture ''2500'' uneven_pages []) None [''p'']
                empty_transformer = Inr st' \<and>
      calls st' = calls empty_transformer @ cs \<and>
      edge_windows cs = [(''<p>'', 0, 1000), (''<p>'', 1000, 1000), (''<p>'', 2000, 1000)] \<and>
      edge_calls cs = [(''s1'', ''o1'', ''p''), (''s2'', ''o2'', ''p''), (''s3'', ''o3'', ''p'')] \<and>
      node_queries cs = [[Some ''<s1>'', Some ''<o1>'', Some ''<s2>'', Some ''<o2>''],
                         [Some ''<s3>'', Some ''<o3>'']])"
proof -
  let ?ep = "fixture ''2500'' uneven_pages []"
  have c: "triples_count (?ep (Count_query (angle ''p''))) = Inr 2500"
    by (rule triples_count_fixture) (rule py_int_examples)
  have r: "py_range 0 2500 1000 = [0, 1000, 2000]"
    by (simp add: py_range.simps)
  from pages_until_count [OF rows_bound_uneven c, of un_camel_case empty_transformer]
  obtain st' cs where
    1: "red_load_networkx_graph un_camel_case ?ep None [''p''] empty_transformer = Inr st'"
       "calls st' = calls empty_transformer @ cs"
       "edge_windows cs = map (\<lambda>off. (angle ''p'', off, 1000)) (py_range 0 2500 1000)"
       "edge_calls cs =
          concat (map (\<lambda>off. map edge_args (?ep (Edge_query (angle ''p'') off 1000)))
                      (py_range 0 2500 1000))"
       "node_queries cs =
          concat (map (\<lambda>off. page_node_queries (?ep (Edge_query (angle ''p'') off 1000)))
                      (py_range 0 2500 1000))"
    by blast
  have w: "edge_windows cs = [(''<p>'', 0, 1000), (''<p>'', 1000, 1000), (''<p>'', 2000, 1000)]"
    unfolding 1(3) r by (simp add: angle_def)
  have e: "edge_calls cs = [(''s1'', ''o1'', ''p''), (''s2'', ''o2'', ''p''), (''s3'', ''o3'', ''p'')]"
    unfolding 1(4) r by (simp add: uneven_pages_def uri_def)
  have n: "node_queries cs = [[Some ''<s1>'', Some ''<o1>'', Some ''<s2>'', Some ''<o2>''],
                         [Some ''<s3>'', Some ''<o3>'']]"
    unfolding 1(5) r by (simp add: page_node_queries_uneven)
  from 1(1,2) w e n rows_bound_uneven c show ?thesis by blast
qed

text \<open>
  The claim as it was stated asks for a page at every offset up to and including the
  count. With the count 2000 the pages are those at 0 and 1000, and none at 2000.
\<close>

theorem page_at_count_counterexample:
  "edge_windows (calls_of (red_load_networkx_graph un_camel_case (fixture ''2000'' no_pages [])
      None [''p''] empty_transformer)) = [(''<p>'', 0, 1000), (''<p>'', 1000, 1000)]"
proof -
  have c: "\<forall>p \<in> set [''p''].
      triples_count (fixture ''2000'' no_pages [] (Count_query (angle p))) = Inr 2000"
    by (simp add: triples_count_row py_int_examples)
  show ?thesis
    unfolding run_windows [OF rows_bound_no_pages c]
    by (simp add: page_offsets_def py_range.simps angle_def)
qed

text \<open>
  Claim C6. With a \<^verbatim>\<open>limit\<close> keyword, the loop stops after the first page whose index
  \<^verbatim>\<open>i\<close> exceeds the limit; \<^verbatim>\<open>i\<close> runs over \<^verbatim>\<open>range(step, count + step, step)\<close>, so it
  is the end of the window just fetched. The pages fetched are those of the values of
  \<^verbatim>\<open>i\<close> up to and including the first one above the limit (\<^const>\<open>until_limit\<close>). The
  two stop conditions are independent: a page at \<open>off\<close> is fetched exactly when the count
  allows it (\<open>off\<close> is a multiple of 1000 below the count) and the limit allows it (it is
  the first page, or \<open>off\<close>, the index of the page before, does not exceed the limit).
\<close>

theorem limit_stops_pagination:
  assumes "rows_bound ep"
    and "triples_count (ep (Count_query (angle predicate))) = Inr count"
  shows "\<exists>st' cs. red_load_networkx_graph f ep (Some l) [predicate] st = Inr st' \<and>
           calls st' = calls st @ cs \<and>
           edge_windows cs = map (\<lambda>i. (angle predicate, i - 1000, 1000))
                               (until_limit (Some l) (py_range 1000 (count + 1000) 1000)) \<and>
           (\<forall>off. (angle predicate, off, 1000) \<in> set (edge_windows cs) \<longleftrightarrow>
                    (0 \<le> off \<and> off < count \<and> 1000 dvd off) \<and> (off = 0 \<or> off \<le> l))"
proof -
  from red_load_calls [OF assms(1), of "[predicate]" "\<lambda>p. count" f "Some l" st] assms(2)
  obtain st' pcs where
    1: "red_load_networkx_graph f ep (Some l) [predicate] st = Inr st'"
       "calls st' = calls st @ concat pcs"
       "list_all2 (\<lambda>p cs. predicate_calls ep (Some l) count p cs) [predicate] pcs"
    by auto
  from fetch_windows [OF 1(3)]
  have w: "edge_windows (concat pcs) =
             map (\<lambda>off. (angle predicate, off, 1000)) (page_offsets (Some l) count)"
    by simp
  have w1: "edge_windows (concat pcs) = map (\<lambda>i. (angle predicate, i - 1000, 1000))
                               (until_limit (Some l) (py_range 1000 (count + 1000) 1000))"
    unfolding w by (simp add: page_offsets_def comp_def)
  have "\<forall>off. (angle predicate, off, 1000) \<in> set (edge_windows (concat pcs)) \<longleftrightarrow>
                    (0 \<le> off \<and> off < count \<and> 1000 dvd off) \<and> (off = 0 \<or> off \<le> l)"
    unfolding w page_offsets_Some by (auto simp: set_py_range)
  with 1 w1 show ?thesis by blast
qed

text \<open>
  Either condition may fire first: with the count 5000 and the limit 1500 the limit stops
  the loop after two pages; with the count 1500 and the limit 5000 the count does.
\<close>

theorem limit_stops_pagination_witness:
  "rows_bound (fixture ''5000'' uneven_pages []) \<and>
   triples_count (fixture ''5000'' uneven_pages [] (Count_query (angle ''p''))) = Inr 5000 \<and>
   (\<exists>st' cs. red_load_networkx_graph un_camel_case (fixture ''5000'' uneven_pages []) (Some 1500)
                [''p''] empty_transformer = Inr st' \<and>
      calls st' = calls empty_transformer @ cs \<and>
      edge_windows cs = [(''<p>'', 0, 1000), (''<p>'', 1000, 1000)]) \<and>
   rows_bound (fixture ''1500'' uneven_pages []) \<and>
   triples_count (fixture ''1500'' uneven_pages [] (Count_query (angle ''p''))) = Inr 1500 \<and>
   (\<exists>st' cs. red_load_networkx_graph un_camel_case (fixture ''1500'' uneven_pages []) (Some 5000)
                [''p''] empty_transformer = Inr st' \<and>
      calls st' = calls empty_transformer @ cs \<and>
      edge_windows cs = [(''<p>'', 0, 1000), (''<p>'', 1000, 1000)])"
proof -
  have c1: "triples_count (fixture ''5000'' uneven_pages [] (Count_query (angle ''p''))) = Inr 5000"
    by (rule triples_count_fixture) (rule py_int_examples)
  have c2: "triples_count (fixture ''1500'' uneven_pages [] (Count_query (angle ''p''))) = Inr 1500"
    by (rule triples_count_fixture) (rule py_int_examples)
  from limit_stops_pagination [OF rows_bound_uneven c1, of un_camel_case 1500 empty_transformer]
  obtain st1 cs1 where
    1: "red_load_networkx_graph un_camel_case (fixture ''5000'' uneven_pages []) (Some 1500)
          [''p''] empty_transformer = Inr st1"
       "calls st1 = calls empty_transformer @ cs1"
       "edge_windows cs1 = map (\<lambda>i. (angle ''p'', i - 1000, 1000))
                               (until_limit (Some 1500) (py_range 1000 (5000 + 1000) 1000))"
    by blast
  from limit_stops_pagination [OF rows_bound_uneven c2, of un_camel_case 5000 empty_transformer]
  obtain st2 cs2 where
    2: "red_load_networkx_graph un_camel_case (fixture ''1500'' uneven_pages []) (Some 5000)
          [''p''] empty_transformer = Inr st2"
       "calls st2 = calls empty_transformer @ cs2"
       "edge_windows cs2 = map (\<lambda>i. (angle ''p'', i - 1000, 1000))
                               (until_limit (Some 5000) (py_range 1000 (1500 + 1000) 1000))"
    by blast
  have e1: "map (\<lambda>i. (angle ''p'', i - 1000, 1000))
              (until_limit (Some 1500) (py_range 1000 (5000 + 1000) 1000)) =
            [(''<p>'', 0, 1000), (''<p>'', 1000, 1000)]"
    by (simp add: py_range.simps angle_def)
  have e2: "map (\<lambda>i. (angle ''p'', i - 1000, 1000))
              (until_limit (Some 5000) (py_range 1000 (1500 + 1000) 1000)) =
            [(''<p>'', 0, 1000), (''<p>'', 1000, 1000)]"
    by (simp add: py_range.simps angle_def)
  from 1 2 e1 e2 rows_bound_uneven c1 c2 show ?thesis by auto
qed

text \<open>
  Claim C10. The \<^verbatim>\<open>break\<close> on the limit leaves the inner loop only. For every list of
  predicates, the pages fetched are, predicate after predicate, those that the limit and
  that predicate's own count allow: every predicate with a positive count is paginated
  from offset 0, whatever was fetched for the predicates before it. The calls of the fetch
  are those of \<^const>\<open>fetch_trace\<close>. \<^verbatim>\<open>categorize\<close> runs at the end, on the graph that
  these calls have built from the initial one: the edges of the returned graph are the
  edges of that graph, and its nodes are the nodes of that graph, each with the attributes
  that \<^const>\<open>with_category\<close> gives; so every node with a \<^verbatim>\<open>type\<close> has a \<^verbatim>\<open>category\<close>.
\<close>

theorem limit_is_per_predicate:
  assumes "rows_bound ep"
    and "\<forall>p \<in> set predicates. triples_count (ep (Count_query (angle p))) = Inr (count p)"
  shows "\<exists>st' cs. red_load_networkx_graph f ep (Some l) predicates st = Inr st' \<and>
           calls st' = calls st @ cs \<and>
           edge_windows cs =
             concat (map (\<lambda>p. map (\<lambda>i. (angle p, i - 1000, 1000))
                                  (until_limit (Some l) (py_range 1000 (count p + 1000) 1000)))
                         predicates) \<and>
           (\<forall>p \<in> set predicates. 0 < count p \<longrightarrow> (angle p, 0, 1000) \<in> set (edge_windows cs)) \<and>
           (\<forall>(n, data) \<in> set (g_nodes (graph st')).
              map_of data ''type'' \<noteq> None \<longrightarrow> map_of data ''category'' \<noteq> None) \<and>
           cs = fetch_trace ep (Some l) count predicates \<and>
           g_nodes (graph st') =
             map (\<lambda>(n, data). (n, with_category f data))
                 (g_nodes (fold apply_call cs (graph st))) \<and>
           g_edges (graph st') = g_edges (fold apply_call cs (graph st))"
proof -
  let ?cs = "fetch_trace ep (Some l) count predicates"
  from red_load_graph [OF assms, of f "Some l" st]
  obtain st' where
    1: "red_load_networkx_graph f ep (Some l) predicates st = Inr st'"
       "calls st' = calls st @ ?cs"
       "g_nodes (graph st') =
          map (\<lambda>(n, data). (n, with_category f data)) (g_nodes (fold apply_call ?cs (graph st)))"
       "g_edges (graph st') = g_edges (fold apply_call ?cs (graph st))"
    by blast
  have w: "edge_windows ?cs =
             concat (map (\<lambda>p. map (\<lambda>off. (angle p, off, 1000)) (page_offsets (Some l) (count p)))
                         predicates)"
    by (rule fetch_trace_proj)
  have w1: "edge_windows ?cs =
             concat (map (\<lambda>p. map (\<lambda>i. (angle p, i - 1000, 1000))
                                  (until_limit (Some l) (py_range 1000 (count p + 1000) 1000)))
                         predicates)"
    unfolding w by (simp add: page_offsets_def comp_def)
  have z: "\<forall>p \<in> set predicates. 0 < count p \<longrightarrow> (angle p, 0, 1000) \<in> set (edge_windows ?cs)"
  proof (intro ballI impI)
    fix p assume p: "p \<in> set predicates" "0 < count p"
    have "(0::int) \<in> set (page_offsets (Some l) (count p))"
      using p(2) by (simp add: page_offsets_Some set_py_range)
    with p(1) show "(angle p, 0, 1000) \<in> set (edge_windows ?cs)" unfolding w by auto
  qed
  from red_load_categorized [OF 1(1)] obtain st1 where st1: "st' = categorize f st1" ..
  have c: "\<forall>(n, data) \<in> set (g_nodes (graph st')).
              map_of data ''type'' \<noteq> None \<longrightarrow> map_of data ''category'' \<noteq> None"
    unfolding st1 using categorize_typed by blast
  from 1 w1 z c show ?thesis by blast
qed

text \<open>
  Two predicates with 5000 triples each and the limit 500: one page for each, two in all.
  The node \<^verbatim>\<open>s1\<close>, which the fetch gives the type \<^verbatim>\<open>biolink:GeneProduct\<close>, has the
  category \<^verbatim>\<open>gene product\<close> in the returned graph.
\<close>

theorem limit_is_per_predicate_witness:
  "rows_bound (fixture ''5000'' typed_pages typed_rows) \<and>
   list_all (\<lambda>p. triples_count (fixture ''5000'' typed_pages typed_rows (Count_query (angle p)))
               = Inr 5000) [''p1'', ''p2''] \<and>
   (\<exists>st' cs. red_load_networkx_graph un_camel_case (fixture ''5000'' typed_pages typed_rows)
                (Some 500) [''p1'', ''p2''] empty_transformer = Inr st' \<and>
      calls st' = calls empty_transformer @ cs \<and>
      edge_windows cs = [(''<p1>'', 0, 1000), (''<p2>'', 0, 1000)] \<and>
      graph st' =
        \<lparr>g_nodes = [(''s1'', [(''type'', ''biolink:GeneProduct''), (''category'', ''gene product'')]),
                    (''o1'', [])],
         g_edges = [(''s1'', ''o1'', ''p'')]\<rparr>)"
proof -
  let ?ep = "fixture ''5000'' typed_pages typed_rows"
  have c: "\<forall>p \<in> set [''p1'', ''p2'']. triples_count (?ep (Count_query (angle p))) = Inr 5000"
    by (simp add: triples_count_row py_int_examples)
  from limit_is_per_predicate [OF rows_bound_typed c, of un_camel_case 500 empty_transformer]
  obtain st' cs where
    1: "red_load_networkx_graph un_camel_case ?ep (Some 500) [''p1'', ''p2'']
          empty_transformer = Inr st'"
       "calls st' = calls empty_transformer @ cs"
       "cs = fetch_trace ?ep (Some 500) (\<lambda>p. 5000) [''p1'', ''p2'']"
       "g_nodes (graph st') =
          map (\<lambda>(n, data). (n, with_category un_camel_case data))
              (g_nodes (fold apply_call cs (graph empty_transformer)))"
       "g_edges (graph st') = g_edges (fold apply_call cs (graph empty_transformer))"
    by blast
  have w: "edge_windows cs = [(''<p1>'', 0, 1000), (''<p2>'', 0, 1000)]"
    unfolding 1(3) typed_fetch_trace by simp
  have n: "g_nodes (graph st') =
        [(''s1'', [(''type'', ''biolink:GeneProduct''), (''category'', ''gene product'')]),
         (''o1'', [])]"
    unfolding 1(4) unfolding 1(3) typed_fetch_trace typed_fetch_graph
    by (simp add: typed_category)
  have e: "g_edges (graph st') = [(''s1'', ''o1'', ''p'')]"
    unfolding 1(5) unfolding 1(3) typed_fetch_trace typed_fetch_graph by simp
  have g: "graph st' =
        \<lparr>g_nodes = [(''s1'', [(''type'', ''biolink:GeneProduct''), (''category'', ''gene product'')]),
                    (''o1'', [])],
         g_edges = [(''s1'', ''o1'', ''p'')]\<rparr>"
    using n e by (cases "graph st'") simp
  from 1(1,2) w g rows_bound_typed c show ?thesis by (auto simp: list_all_iff)
qed

section \<open>One \<^verbatim>\<open>add_edge\<close> per returned row\<close>

text \<open>
  Claim C2, as amended. During one fetch \<^verbatim>\<open>add_edge\<close> is called once for every row of every
  edge page that was fetched, in the order of the rows: the calls of the fetch are those of
  \<^const>\<open>fetch_trace\<close>, the windows are the ones the counts and the limit give, the
  \<^verbatim>\<open>add_edge\<close> calls are the (subject, object, predicate) of the rows of these windows, and
  a triple is passed to \<^verbatim>\<open>add_edge\<close> as many times as rows of the fetched pages carry it.
  So no returned triple is skipped, and a triple that two rows carry (one row per edge
  property) gets two calls.
\<close>

theorem add_edge_per_row:
  assumes "rows_bound ep"
    and "\<forall>p \<in> set predicates. triples_count (ep (Count_query (angle p))) = Inr (count p)"
  shows "\<exists>st' cs. red_load_networkx_graph f ep limit predicates st = Inr st' \<and>
           calls st' = calls st @ cs \<and>
           cs = fetch_trace ep limit count predicates \<and>
           edge_windows cs =
             concat (map (\<lambda>p. map (\<lambda>i. (angle p, i - 1000, 1000))
                                  (until_limit limit (py_range 1000 (count p + 1000) 1000)))
                         predicates) \<and>
           edge_calls cs =
             concat (map (\<lambda>(a, off, lim). map edge_args (ep (Edge_query a off lim)))
                         (edge_windows cs)) \<and>
           (\<forall>t. count_list (edge_calls cs) t =
                  (\<Sum>(a, off, lim) \<leftarrow> edge_windows cs.
                     length (filter (\<lambda>r. edge_args r = t) (ep (Edge_query a off lim)))))"
proof -
  let ?cs = "fetch_trace ep limit count predicates"
  from red_load_graph [OF assms, of f limit st]
  obtain st' where
    1: "red_load_networkx_graph f ep limit predicates st = Inr st'"
       "calls st' = calls st @ ?cs"
    by blast
  have w: "edge_windows ?cs =
             concat (map (\<lambda>p. map (\<lambda>i. (angle p, i - 1000, 1000))
                                  (until_limit limit (py_range 1000 (count p + 1000) 1000)))
                         predicates)"
    by (simp add: fetch_trace_proj page_offsets_def comp_def)
  have e: "edge_calls ?cs =
             concat (map (\<lambda>(a, off, lim). map edge_args (ep (Edge_query a off lim)))
                         (edge_windows ?cs))"
    by (rule windows_of_trace [symmetric])
  have m: "count_list (map edge_args rs) t = length (filter (\<lambda>r. edge_args r = t) rs)"
    for rs :: "binding list" and t
    by (induction rs) simp_all
  have k: "count_list (concat (map (\<lambda>(a, off, lim). map edge_args (ep (Edge_query a off lim))) ws)) t =
           (\<Sum>(a, off, lim) \<leftarrow> ws. length (filter (\<lambda>r. edge_args r = t) (ep (Edge_query a off lim))))"
    for ws t
    by (induction ws) (auto simp: m)
  have "\<forall>t. count_list (edge_calls ?cs) t =
                  (\<Sum>(a, off, lim) \<leftarrow> edge_windows ?cs.
                     length (filter (\<lambda>r. edge_args r = t) (ep (Edge_query a off lim))))"
    by (subst e) (simp add: k)
  with 1 w e show ?thesis by blast
qed

text \<open>
  Two rows of one page with the same subject, predicate and object, one per edge property:
  \<^verbatim>\<open>add_edge\<close> is called for both.
\<close>

theorem add_edge_per_row_witness:
  "rows_bound (fixture ''2'' repeated_pages []) \<and>
   list_all (\<lambda>p. triples_count (fixture ''2'' repeated_pages [] (Count_query (angle p))) = Inr 2)
     [''p''] \<and>
   (\<exists>st' cs. red_load_networkx_graph un_camel_case (fixture ''2'' repeated_pages []) None [''p'']
                empty_transformer = Inr st' \<and>
      calls st' = calls empty_transformer @ cs \<and>
      edge_windows cs = [(''<p>'', 0, 1000)] \<and>
      edge_calls cs = [(''s'', ''o'', ''p''), (''s'', ''o'', ''p'')] \<and>
      count_list (edge_calls cs) (''s'', ''o'', ''p'') = 2)"
proof -
  let ?ep = "fixture ''2'' repeated_pages []"
  have c: "\<forall>p \<in> set [''p'']. triples_count (?ep (Count_query (angle p))) = Inr 2"
    by (simp add: triples_count_row py_int_2)
  from add_edge_per_row [OF rows_bound_repeated c, of un_camel_case None empty_transformer]
  obtain st' cs where
    1: "red_load_networkx_graph un_camel_case ?ep None [''p''] empty_transformer = Inr st'"
       "calls st' = calls empty_transformer @ cs"
       "edge_windows cs =
             concat (map (\<lambda>p. map (\<lambda>i. (angle p, i - 1000, 1000))
                                  (until_limit None (py_range 1000 (2 + 1000) 1000)))
                         [''p''])"
       "edge_calls cs = concat (map (\<lambda>(a, off, lim). map edge_args (?ep (Edge_query a off lim)))
                         (edge_windows cs))"
    by blast
  from 1(3) have w: "edge_windows cs = [(''<p>'', 0, 1000)]"
    by (simp add: py_range.simps angle_def)
  have e: "edge_calls cs = [(''s'', ''o'', ''p''), (''s'', ''o'', ''p'')]"
    unfolding 1(4) w by (simp add: repeated_pages_def uri_def)
  have k: "count_list (edge_calls cs) (''s'', ''o'', ''p'') = 2"
    unfolding e by simp
  from 1(1,2) w e k rows_bound_repeated c show ?thesis by auto
qed

text \<open>
  The claim as the specification words it (once per distinct triple) does not hold: the
  same fetch calls \<^verbatim>\<open>add_edge\<close> twice with the one triple its two rows carry.
\<close>

theorem add_edge_once_counterexample:
  "edge_calls (calls_of (red_load_networkx_graph un_camel_case (fixture ''2'' repeated_pages [])
      None [''p''] empty_transformer)) = [(''s'', ''o'', ''p''), (''s'', ''o'', ''p'')]"
proof -
  let ?ep = "fixture ''2'' repeated_pages []"
  have c: "\<forall>p \<in> set [''p'']. triples_count (?ep (Count_query (angle p))) = Inr 2"
    by (simp add: triples_count_row py_int_2)
  have w: "edge_windows (calls_of (red_load_networkx_graph un_camel_case ?ep None [''p'']
             empty_transformer)) = [(''<p>'', 0, 1000)]"
    unfolding run_windows [OF rows_bound_repeated c]
    by (simp add: page_offsets_def py_range.simps angle_def)
  show ?thesis
    unfolding run_edges [OF rows_bound_repeated c] w
    by (simp add: repeated_pages_def uri_def)
qed

section \<open>Node identifiers are deduplicated page by page\<close>

text \<open>
  Claim C3, as amended. \<^verbatim>\<open>node_list\<close> is a new set for every edge page, so the node
  identifiers are deduplicated within a page and not across pages: the node-attribute
  queries of a fetch are, window after window, the queries for the nodes of that window's
  rows; the queries of one page list every subject and object of its rows, in angle
  brackets, and list none of them twice.
\<close>

theorem nodes_deduplicated_per_page:
  assumes "rows_bound ep"
    and "\<forall>p \<in> set predicates. triples_count (ep (Count_query (angle p))) = Inr (count p)"
  shows "\<exists>st' cs. red_load_networkx_graph f ep limit predicates st = Inr st' \<and>
           calls st' = calls st @ cs \<and>
           cs = fetch_trace ep limit count predicates \<and>
           edge_windows cs =
             concat (map (\<lambda>p. map (\<lambda>i. (angle p, i - 1000, 1000))
                                  (until_limit limit (py_range 1000 (count p + 1000) 1000)))
                         predicates) \<and>
           node_queries cs =
             concat (map (\<lambda>(a, off, lim). page_node_queries (ep (Edge_query a off lim)))
                         (edge_windows cs)) \<and>
           (\<forall>a off lim.
              distinct (concat (page_node_queries (ep (Edge_query a off lim)))) \<and>
              set (concat (page_node_queries (ep (Edge_query a off lim)))) =
                Some ` (\<Union>r \<in> set (ep (Edge_query a off lim)).
                          {angle (the_value r ''subject''), angle (the_value r ''object'')}))"
proof -
  let ?cs = "fetch_trace ep limit count predicates"
  from red_load_graph [OF assms, of f limit st]
  obtain st' where
    1: "red_load_networkx_graph f ep limit predicates st = Inr st'"
       "calls st' = calls st @ ?cs"
    by blast
  have w: "edge_windows ?cs =
             concat (map (\<lambda>p. map (\<lambda>i. (angle p, i - 1000, 1000))
                                  (until_limit limit (py_range 1000 (count p + 1000) 1000)))
                         predicates)"
    by (simp add: fetch_trace_proj page_offsets_def comp_def)
  have e: "node_queries ?cs =
             concat (map (\<lambda>(a, off, lim). page_node_queries (ep (Edge_query a off lim)))
                         (edge_windows ?cs))"
    by (rule node_queries_of_trace [symmetric])
  have "list_all spo_bound (ep (Edge_query a off lim))" for a off lim
    using assms(1) by (simp add: rows_bound_def)
  then have "\<forall>a off lim.
              distinct (concat (page_node_queries (ep (Edge_query a off lim)))) \<and>
              set (concat (page_node_queries (ep (Edge_query a off lim)))) =
                Some ` (\<Union>r \<in> set (ep (Edge_query a off lim)).
                          {angle (the_value r ''subject''), angle (the_value r ''object'')})"
    using page_node_queries_distinct by blast
  with 1 w e show ?thesis by blast
qed

text \<open>
  Two pages whose rows have the subject \<^verbatim>\<open>s\<close>: each page asks for the attributes of
  \<^verbatim>\<open><s>\<close>.
\<close>

theorem nodes_deduplicated_per_page_witness:
  "rows_bound (fixture ''1001'' shared_node_pages []) \<and>
   list_all (\<lambda>p. triples_count (fixture ''1001'' shared_node_pages [] (Count_query (angle p)))
               = Inr 1001) [''p''] \<and>
   (\<exists>st' cs. red_load_networkx_graph un_camel_case (fixture ''1001'' shared_node_pages []) None
                [''p''] empty_transformer = Inr st' \<and>
      calls st' = calls empty_transformer @ cs \<and>
      edge_windows cs = [(''<p>'', 0, 1000), (''<p>'', 1000, 1000)] \<and>
      node_queries cs = [[Some ''<s>'', Some ''<o1>''], [Some ''<s>'', Some ''<o2>'']])"
proof -
  let ?ep = "fixture ''1001'' shared_node_pages []"
  have c: "\<forall>p \<in> set [''p'']. triples_count (?ep (Count_query (angle p))) = Inr 1001"
    by (simp add: triples_count_row py_int_examples)
  from nodes_deduplicated_per_page [OF rows_bound_shared c, of un_camel_case None
      empty_transformer]
  obtain st' cs where
    1: "red_load_networkx_graph un_camel_case ?ep None [''p''] empty_transformer = Inr st'"
       "calls st' = calls empty_transformer @ cs"
       "edge_windows cs =
             concat (map (\<lambda>p. map (\<lambda>i. (angle p, i - 1000, 1000))
                                  (until_limit None (py_range 1000 (1001 + 1000) 1000)))
                         [''p''])"
       "node_queries cs =
          concat (map (\<lambda>(a, off, lim). page_node_queries (?ep (Edge_query a off lim)))
                      (edge_windows cs))"
    by blast
  from 1(3) have w: "edge_windows cs = [(''<p>'', 0, 1000), (''<p>'', 1000, 1000)]"
    by (simp add: py_range.simps angle_def)
  have e: "node_queries cs = [[Some ''<s>'', Some ''<o1>''], [Some ''<s>'', Some ''<o2>'']]"
    unfolding 1(4) w by (rule shared_node_queries)
  from 1(1,2) w e rows_bound_shared c show ?thesis by auto
qed

text \<open>
  The claim as the specification words it (at most one node-attribute query for an
  identifier, also across pages) does not hold: \<^verbatim>\<open><s>\<close> is in the query of the first page
  and in the query of the second.
\<close>

theorem node_queried_twice_counterexample:
  "node_queries (calls_of (red_load_networkx_graph un_camel_case
      (fixture ''1001'' shared_node_pages []) None [''p''] empty_transformer)) =
     [[Some ''<s>'', Some ''<o1>''], [Some ''<s>'', Some ''<o2>'']]"
proof -
  let ?ep = "fixture ''1001'' shared_node_pages []"
  have c: "\<forall>p \<in> set [''p'']. triples_count (?ep (Count_query (angle p))) = Inr 1001"
    by (simp add: triples_count_row py_int_examples)
  have w: "edge_windows (calls_of (red_load_networkx_graph un_camel_case ?ep None [''p'']
             empty_transformer)) = [(''<p>'', 0, 1000), (''<p>'', 1000, 1000)]"
    unfolding run_windows [OF rows_bound_shared c]
    by (simp add: page_offsets_def py_range.simps angle_def)
  show ?thesis
    unfolding run_nodes [OF rows_bound_shared c] w by (rule shared_node_queries)
qed

section \<open>The generic loader: literals to attributes, the rest to edges\<close>

text \<open>
  Claim C8. \<^verbatim>\<open>SparqlTransformer.load_networkx_graph\<close> sends one edge query per predicate and
  makes one graph-mutator call per returned row, the call of \<^const>\<open>routed\<close>:
  \<^verbatim>\<open>add_node_attribute(subject, key=predicate, value=object)\<close> when the object has type
  \<^verbatim>\<open>literal\<close>, and \<^verbatim>\<open>add_edge(subject, object, predicate)\<close> otherwise. The graph returned is
  the one these calls build. So when the answer is the single row with subject \<open>S\<close>,
  predicate \<open>Q\<close> and the literal \<open>v\<close>, a graph that was empty ends with the one node \<open>S\<close>,
  which has the attribute \<open>Q = v\<close>, and with no edge.
\<close>

theorem generic_loader_routes:
  assumes "rows_bound ep"
  shows "\<exists>st' cs. load_networkx_graph ep predicates st = Inr st' \<and>
           calls st' = calls st @ cs \<and>
           cs = concat (map (\<lambda>p. Query (Generic_edge_query (angle p))
                              # map routed (ep (Generic_edge_query (angle p)))) predicates) \<and>
           mutations cs =
             concat (map (\<lambda>p. map routed (ep (Generic_edge_query (angle p)))) predicates) \<and>
           graph st' = fold apply_call cs (graph st) \<and>
           (predicates = [P] \<and> ep (Generic_edge_query (angle P)) = [row S Q (literal v)] \<and>
            graph st = \<lparr>g_nodes = [], g_edges = []\<rparr> \<longrightarrow>
              graph st' = \<lparr>g_nodes = [(S, [(Q, v)])], g_edges = []\<rparr>)"
proof -
  let ?g = "\<lambda>p. Query (Generic_edge_query (angle p)) # map routed (ep (Generic_edge_query (angle p)))"
  let ?cs = "concat (map ?g predicates)"
  from efold_trace [of predicates "load_predicate ep" ?g st] load_predicate_trace [OF assms]
  obtain st' where
    1: "load_networkx_graph ep predicates st = Inr st'" "calls st' = calls st @ ?cs"
    unfolding load_networkx_graph_def by blast
  from graph_of_calls [OF follows_generic [OF 1(1)] 1(2)]
  have g: "graph st' = fold apply_call ?cs (graph st)" .
  have r: "routed (row S Q (literal v)) = Add_node_attribute S Q v"
    by (simp add: routed_def is_literal_def row_def literal_def the_value_def uri_def)
  have s: "predicates = [P] \<and> ep (Generic_edge_query (angle P)) = [row S Q (literal v)] \<and>
            graph st = \<lparr>g_nodes = [], g_edges = []\<rparr> \<longrightarrow>
              graph st' = \<lparr>g_nodes = [(S, [(Q, v)])], g_edges = []\<rparr>"
    unfolding g
    by (auto simp: r G_add_node_attribute_def G_add_node_def)
  from 1 g s mutations_generic [of ep predicates] show ?thesis by blast
qed

text \<open>The scenario of the specification: the answer is the one triple (S, P, "42").\<close>

theorem generic_loader_routes_witness:
  "rows_bound (fixture ''1'' literal_pages []) \<and>
   (\<exists>st' cs. load_networkx_graph (fixture ''1'' literal_pages []) [''P''] empty_transformer
                = Inr st' \<and>
      calls st' = calls empty_transformer @ cs \<and>
      cs = [Query (Generic_edge_query ''<P>''), Add_node_attribute ''S'' ''P'' ''42''] \<and>
      graph st' = \<lparr>g_nodes = [(''S'', [(''P'', ''42'')])], g_edges = []\<rparr>)"
proof -
  let ?ep = "fixture ''1'' literal_pages []"
  from generic_loader_routes [OF rows_bound_literal, where predicates = "[''P'']"
      and st = empty_transformer and P = "''P''" and S = "''S''" and Q = "''P''" and v = "''42''"]
  obtain st' cs where
    1: "load_networkx_graph ?ep [''P''] empty_transformer = Inr st'"
       "calls st' = calls empty_transformer @ cs"
       "cs = concat (map (\<lambda>p. Query (Generic_edge_query (angle p))
                              # map routed (?ep (Generic_edge_query (angle p)))) [''P''])"
       "[''P''] = [''P''] \<and> ?ep (Generic_edge_query (angle ''P'')) = [row ''S'' ''P'' (literal ''42'')] \<and>
            graph empty_transformer = \<lparr>g_nodes = [], g_edges = []\<rparr> \<longrightarrow>
              graph st' = \<lparr>g_nodes = [(''S'', [(''P'', ''42'')])], g_edges = []\<rparr>"
    by blast
  have c: "cs = [Query (Generic_edge_query ''<P>''), Add_node_attribute ''S'' ''P'' ''42'']"
    unfolding 1(3)
    by (simp add: literal_pages_def angle_def routed_def is_literal_def row_def literal_def
        the_value_def uri_def)
  from 1(4) have g: "graph st' = \<lparr>g_nodes = [(''S'', [(''P'', ''42'')])], g_edges = []\<rparr>"
    by (simp add: literal_pages_def empty_transformer_def)
  from 1(1,2) c g rows_bound_literal show ?thesis by blast
qed

section \<open>The category normalizer\<close>

text \<open>
  Claim C9. \<^verbatim>\<open>RedSparqlTransformer.categorize\<close> is idempotent: for every graph (and every
  \<^verbatim>\<open>un_camel_case\<close>), a second run changes nothing. A node that has a \<^verbatim>\<open>category\<close>
  attribute is left as it is, whether or not it has a \<^verbatim>\<open>type\<close>.
\<close>

theorem categorize_idempotent:
  "categorize f (categorize f st) = categorize f st \<and>
   (\<forall>i < length (g_nodes (graph st)).
      map_of (snd (g_nodes (graph st) ! i)) ''category'' \<noteq> None \<longrightarrow>
      g_nodes (graph (categorize f st)) ! i = g_nodes (graph st) ! i)"
proof (intro conjI allI impI)
  show "categorize f (categorize f st) = categorize f st"
    by (simp add: categorize_def split_def comp_def categorize_data_idem)
next
  fix i
  assume i: "i < length (g_nodes (graph st))"
    and c: "map_of (snd (g_nodes (graph st) ! i)) ''category'' \<noteq> None"
  show "g_nodes (graph (categorize f st)) ! i = g_nodes (graph st) ! i"
    using i categorize_data_category [OF c, of f]
    by (simp add: categorize_def split_def)
qed

text \<open>
  On \<^const>\<open>typed_graph\<close>: the node with \<^verbatim>\<open>category="foo"\<close> keeps its attributes, the
  node of type \<^verbatim>\<open>biolink:GeneProduct\<close> gets the category \<^verbatim>\<open>gene product\<close>, and a second
  run changes nothing.
\<close>

theorem categorize_idempotent_witness:
  "categorize un_camel_case (categorize un_camel_case typed_graph)
     = categorize un_camel_case typed_graph \<and>
   g_nodes (graph (categorize un_camel_case typed_graph)) ! 1
     = (''n2'', [(''category'', ''foo''), (''type'', ''biolink:Gene'')]) \<and>
   g_nodes (graph (categorize un_camel_case typed_graph)) ! 0
     = (''n1'', [(''type'', ''biolink:GeneProduct''), (''category'', ''gene product'')])"
proof -
  have n: "g_nodes (graph typed_graph) ! 1
             = (''n2'', [(''category'', ''foo''), (''type'', ''biolink:Gene'')])"
    "(1::nat) < length (g_nodes (graph typed_graph))"
    "map_of (snd (g_nodes (graph typed_graph) ! 1)) ''category'' \<noteq> None"
    by (simp_all add: typed_graph_def)
  have r: "str_replace ''biolink:'' [] ''biolink:GeneProduct'' = ''GeneProduct''"
    by code_simp
  have u: "un_camel_case ''GeneProduct'' = ''gene product''"
    by code_simp
  have z: "g_nodes (graph (categorize un_camel_case typed_graph)) ! 0
     = (''n1'', [(''type'', ''biolink:GeneProduct''), (''category'', ''gene product'')])"
    by (simp add: categorize_def typed_graph_def categorize_data_def r u)
  from categorize_idempotent [of un_camel_case typed_graph] n z
  show ?thesis by simp
qed

end
